theory Spec2Isabelle
  imports Complex_Main "HOL-Library.Multiset"
begin

section \<open>Reviewer allocation: a model of AllocationScript\_v2.py\<close>

text \<open>
  The script assigns \<open>ASSIGNMENTS_PER_APPLICATION\<close> reviewers to every application of
  a table, never one that the application excludes, and keeps every reviewer's number of
  assignments below a cap. The definitions below follow the Python source function by
  function and keep its names. Python integers are \<open>int\<close>, a list is a list, the
  \<open>loads\<close> dictionary is a map, an exception is the \<open>Inl\<close> of a sum.
\<close>

subsection \<open>Values of a table cell\<close>

text \<open>
  A Python \<open>float\<close> is an IEEE double: not a number, an infinity, or a finite value,
  which is a rational number. \<open>is_integer\<close> and \<open>int\<close> are exact on it.
\<close>

datatype pyfloat = NaN | PosInf | NegInf | Finite rat

text \<open>What \<open>normalize_id\<close> can be handed: \<open>None\<close>, an \<open>int\<close>, a \<open>float\<close>, a \<open>str\<close>.\<close>

datatype pyval = PNone | PInt int | PFloat pyfloat | PStr string

datatype py_error = ValueError string | RuntimeError pyval "int set"

definition isnan :: "pyfloat \<Rightarrow> bool" where
  "isnan f = (case f of NaN \<Rightarrow> True | _ \<Rightarrow> False)"

text \<open>\<open>float.is_integer\<close>: false for NaN and the infinities.\<close>

definition is_integer :: "pyfloat \<Rightarrow> bool" where
  "is_integer f = (case f of Finite q \<Rightarrow> of_int \<lfloor>q\<rfloor> = q | _ \<Rightarrow> False)"

text \<open>
  \<open>int(f)\<close> truncates towards zero; the script calls it only after \<open>is_integer\<close>,
  so the two infinities and NaN (where Python raises) never reach it.
\<close>

definition int_of_float :: "pyfloat \<Rightarrow> int" where
  "int_of_float f = (case f of Finite q \<Rightarrow> (if 0 \<le> q then \<lfloor>q\<rfloor> else \<lceil>q\<rceil>) | _ \<Rightarrow> 0)"

subsection \<open>Strings\<close>

text \<open>
  A string is a sequence of characters with code points below 256. Of these,
  \<open>str.strip\<close> and the pattern's \<^verbatim>\<open>\s\<close> take for white space the code points 9 to 13,
  28 to 32, 133 and 160; the pattern's \<^verbatim>\<open>\d\<close> takes for digits the ten digits.
\<close>

definition isspace :: "char \<Rightarrow> bool" where
  "isspace c = (c \<in> set [CHR 0x09, CHR 0x0A, CHR 0x0B, CHR 0x0C, CHR 0x0D,
                          CHR 0x1C, CHR 0x1D, CHR 0x1E, CHR 0x1F, CHR '' '',
                          CHR 0x85, CHR 0xA0])"

definition isdigit :: "char \<Rightarrow> bool" where
  "isdigit c = (c \<in> set ''0123456789'')"

definition strip :: "string \<Rightarrow> string" where
  "strip s = rev (dropWhile isspace (rev (dropWhile isspace s)))"

text \<open>\<open>s.replace(",", "")\<close>\<close>

definition remove_commas :: "string \<Rightarrow> string" where
  "remove_commas s = filter (\<lambda>c. c \<noteq> CHR '','') s"

text \<open>The number that a string of digits spells.\<close>

definition digit_val :: "char \<Rightarrow> int" where
  "digit_val c = int (of_char c) - 48"

definition int_of_digits :: "string \<Rightarrow> int" where
  "int_of_digits ds = foldl (\<lambda>acc c. 10 * acc + digit_val c) 0 ds"

text \<open>
  \<open>int(ds)\<close> for a string of digits. Python's integers are unbounded, but \<open>int\<close>
  raises \<open>ValueError\<close> on a string of more digits than the interpreter's limit, which
  is 4300 unless the interpreter is told otherwise.
\<close>

definition int_max_str_digits :: nat where
  "int_max_str_digits = 4300"

definition py_int :: "string \<Rightarrow> py_error + int" where
  "py_int ds =
     (if length ds > int_max_str_digits
      then Inl (ValueError ''Exceeds the limit (4300 digits) for integer string conversion'')
      else Inr (int_of_digits ds))"

text \<open>
  \<open>ID_PATTERN_INT_OR_FLOAT.match\<close> for the pattern \<^verbatim>\<open>^\s*(\d+)(?:\.0+)?\s*$\<close>: blanks,
  a non-empty run of digits (the group), optionally a dot followed by at least one zero,
  blanks, the end. The three character classes are disjoint, so the greedy match is the
  only one; the result is the group, or \<open>None\<close> when the string does not match.
\<close>

definition ID_PATTERN_INT_OR_FLOAT_match :: "string \<Rightarrow> string option" where
  "ID_PATTERN_INT_OR_FLOAT_match s =
     (let r1 = dropWhile isspace s;
          ds = takeWhile isdigit r1;
          r2 = dropWhile isdigit r1;
          r3 = (case r2 of
                  c # t \<Rightarrow>
                    (if c = CHR ''.'' \<and> takeWhile (\<lambda>z. z = CHR ''0'') t \<noteq> []
                     then dropWhile (\<lambda>z. z = CHR ''0'') t else r2)
                | [] \<Rightarrow> r2)
      in if ds \<noteq> [] \<and> dropWhile isspace r3 = [] then Some ds else None)"

subsection \<open>normalize\_id\<close>

text \<open>
  The built-in \<open>float(s)\<close> is not part of the script: it is the parameter \<open>pyfloat_of\<close>,
  which returns \<open>None\<close> where Python raises \<open>ValueError\<close>. That exception is caught
  by the script; the one of \<open>int(m.group(1))\<close>, which stands before the \<open>try\<close>, is
  not, and is the \<open>Inl\<close> of the result.
\<close>

definition normalize_id ::
  "(string \<Rightarrow> pyfloat option) \<Rightarrow> pyval \<Rightarrow> py_error + int option" where
  "normalize_id pyfloat_of val =
     (case val of
        PNone \<Rightarrow> Inr None
      | PInt n \<Rightarrow> Inr (Some n)
      | PFloat f \<Rightarrow>
          (if isnan f then Inr None
           else if is_integer f then Inr (Some (int_of_float f)) else Inr None)
      | PStr str \<Rightarrow>
          (let s = strip str in
           if s = [] then Inr None
           else let s_no_commas = remove_commas s in
             (case ID_PATTERN_INT_OR_FLOAT_match s_no_commas of
                Some g \<Rightarrow>
                  (case py_int g of Inl e \<Rightarrow> Inl e | Inr n \<Rightarrow> Inr (Some n))
              | None \<Rightarrow>
                 (case pyfloat_of s_no_commas of
                    Some f \<Rightarrow> (if is_integer f then Inr (Some (int_of_float f)) else Inr None)
                  | None \<Rightarrow> Inr None))))"

subsection \<open>The random module\<close>

text \<open>
  \<open>random.shuffle\<close> and \<open>random.sample\<close> belong to Python's library, not to the
  script. Their model is the library's algorithm over an explicit source of randomness:
  the generator's state is the sequence of the raw draws still to come, and
  \<open>randbelow n\<close> consumes one of them and reduces it below \<open>n\<close> (a sequence that has
  run out goes on with zeros). Every outcome of the
  library functions is the outcome of the model for some sequence, and a statement
  proved for every sequence holds whatever the seed is.
\<close>

type_synonym rng = "nat list"

fun randbelow :: "nat \<Rightarrow> rng \<Rightarrow> nat \<times> rng" where
  "randbelow n [] = (0, [])"
| "randbelow n (x # g) = (x mod n, g)"

text \<open>
  \<^verbatim>\<open>for i in reversed(range(1, len(x))): j = randbelow(i + 1); x[i], x[j] = x[j], x[i]\<close>
\<close>

fun shuffle_loop :: "nat \<Rightarrow> 'a list \<Rightarrow> rng \<Rightarrow> 'a list \<times> rng" where
  "shuffle_loop 0 x g = (x, g)"
| "shuffle_loop (Suc i) x g =
     (case randbelow (Suc i + 1) g of
        (j, g') \<Rightarrow> shuffle_loop i ((x[Suc i := x ! j])[j := x ! Suc i]) g')"

definition shuffle :: "'a list \<Rightarrow> rng \<Rightarrow> 'a list \<times> rng" where
  "shuffle x g = shuffle_loop (length x - 1) x g"

text \<open>
  \<open>random.sample\<close> draws \<open>k\<close> positions of the population, no position twice, and
  raises \<open>ValueError\<close> unless \<open>0 \<le> k \<le> n\<close>. Its loop over a copy of the population is
  \<^verbatim>\<open>for i in range(k): j = randbelow(n - i); result[i] = pool[j]; pool[j] = pool[n - i - 1]\<close>
  (for a large population the library remembers the positions drawn instead of copying
  the population; the results it can produce are the same). In \<open>sample_loop\<close> the
  first argument counts the iterations left and the second is \<open>n - i\<close>.
\<close>

fun sample_loop :: "nat \<Rightarrow> nat \<Rightarrow> 'a list \<Rightarrow> 'a list \<Rightarrow> rng \<Rightarrow> 'a list \<times> rng" where
  "sample_loop 0 m pool result g = (result, g)"
| "sample_loop (Suc c) m pool result g =
     (case randbelow m g of
        (j, g') \<Rightarrow> sample_loop c (m - 1) (pool[j := pool ! (m - 1)]) (result @ [pool ! j]) g')"

definition sample :: "'a list \<Rightarrow> int \<Rightarrow> rng \<Rightarrow> py_error + ('a list \<times> rng)" where
  "sample population k g =
     (let n = int (length population) in
      if \<not> (0 \<le> k \<and> k \<le> n)
      then Inl (ValueError ''Sample larger than population or is negative'')
      else Inr (sample_loop (nat k) (length population) population [] g))"

subsection \<open>The selector\<close>

text \<open>\<open>loads.get(rid, 0)\<close>\<close>

definition loads_get :: "(int \<rightharpoonup> int) \<Rightarrow> int \<Rightarrow> int" where
  "loads_get loads rid = (case loads rid of None \<Rightarrow> 0 | Some c \<Rightarrow> c)"

text \<open>Step 1 of the selector: the pool under the cap.\<close>

definition capped_pool :: "int list \<Rightarrow> (int \<rightharpoonup> int) \<Rightarrow> int option \<Rightarrow> int list" where
  "capped_pool eligible_pool loads max_load =
     (case max_load of
        Some mx \<Rightarrow> filter (\<lambda>rid. loads_get loads rid < mx) eligible_pool
      | None \<Rightarrow> eligible_pool)"

text \<open>
  The dictionary \<open>loads\<close> is passed by reference and the generator is global, so the
  selector returns both as it leaves them, next to its picks.
\<close>

definition choose_reviewers_with_minmax ::
  "int list \<Rightarrow> int \<Rightarrow> (int \<rightharpoonup> int) \<Rightarrow> int option \<Rightarrow> int option \<Rightarrow> rng
     \<Rightarrow> py_error + (int list \<times> (int \<rightharpoonup> int) \<times> rng)" where
  "choose_reviewers_with_minmax eligible_pool k loads min_load max_load g =
     (let pool = capped_pool eligible_pool loads max_load;
          sampled =
            (case sample pool (min k (int (length pool))) g of
               Inl e \<Rightarrow> Inl e
             | Inr (res, g') \<Rightarrow> Inr (res, loads, g'))
      in if pool = [] then Inr ([], loads, g)
         else
           (case min_load of
              None \<Rightarrow> sampled
            | Some mn \<Rightarrow>
               if mn \<le> 0 then sampled
               else
                 (case shuffle (filter (\<lambda>rid. loads_get loads rid < mn) pool) g of
                    (under_min, g1) \<Rightarrow>
                 (case shuffle (filter (\<lambda>rid. loads_get loads rid \<ge> mn) pool) g1 of
                    (at_or_above_min, g2) \<Rightarrow>
                      (let need = k;
                           take_n = min need (int (length under_min));
                           picks = (if take_n > 0 then take (nat take_n) under_min else []);
                           need = (if take_n > 0 then need - take_n else need);
                           picks =
                             (if need > 0 \<and> at_or_above_min \<noteq> []
                              then picks @ take (nat (min need (int (length at_or_above_min))))
                                              at_or_above_min
                              else picks)
                       in Inr (picks, loads, g2))))))"

subsection \<open>Reading the two tables\<close>

text \<open>
  The first loop of \<open>load_reviewer_ids\<close>, over the rows of the reviewers file. An
  exception of \<open>normalize_id\<close> ends it.
\<close>

fun load_reviewer_ids_read ::
  "(string \<Rightarrow> pyfloat option) \<Rightarrow> string list list \<Rightarrow> int list \<Rightarrow> py_error + int list" where
  "load_reviewer_ids_read pf [] ids = Inr ids"
| "load_reviewer_ids_read pf (row # reader) ids =
     (case row of
        [] \<Rightarrow> load_reviewer_ids_read pf reader ids
      | raw # _ \<Rightarrow>
          (case normalize_id pf (PStr raw) of
             Inl e \<Rightarrow> Inl e
           | Inr None \<Rightarrow> load_reviewer_ids_read pf reader ids
           | Inr (Some rid) \<Rightarrow> load_reviewer_ids_read pf reader (ids @ [rid])))"

text \<open>Its second loop, which keeps the first occurrence of every identifier.\<close>

fun load_reviewer_ids_uniq :: "int list \<Rightarrow> int set \<Rightarrow> int list \<Rightarrow> int list" where
  "load_reviewer_ids_uniq [] seen uniq = uniq"
| "load_reviewer_ids_uniq (rid # ids) seen uniq =
     (if rid \<notin> seen then load_reviewer_ids_uniq ids (insert rid seen) (uniq @ [rid])
      else load_reviewer_ids_uniq ids seen uniq)"

definition load_reviewer_ids ::
  "(string \<Rightarrow> pyfloat option) \<Rightarrow> string list list \<Rightarrow> py_error + int list" where
  "load_reviewer_ids pf reader =
     (case load_reviewer_ids_read pf reader [] of
        Inl e \<Rightarrow> Inl e
      | Inr ids \<Rightarrow> Inr (load_reviewer_ids_uniq ids {} []))"

text \<open>The applicants table: its column names and its rows, each a map from column to cell.\<close>

record dataframe =
  columns :: "string list"
  rows :: "(string \<rightharpoonup> pyval) list"

definition EXCLUSION_COL_CANDIDATES :: "string list" where
  "EXCLUSION_COL_CANDIDATES = [''Reviewer 1'', ''Reviewer 2'', ''Reviewer 3'']"

definition get_exclusion_cols :: "dataframe \<Rightarrow> string list" where
  "get_exclusion_cols df = filter (\<lambda>c. c \<in> set (columns df)) EXCLUSION_COL_CANDIDATES"

text \<open>\<open>row.get(col)\<close>\<close>

definition row_get :: "(string \<rightharpoonup> pyval) \<Rightarrow> string \<Rightarrow> pyval" where
  "row_get row col = (case row col of None \<Rightarrow> PNone | Some v \<Rightarrow> v)"

text \<open>
  The loop of \<open>build_exclusion_set\<close> over the exclusion columns, from the set built
  so far. An exception of \<open>normalize_id\<close> ends it.
\<close>

fun build_exclusion_set_loop ::
  "(string \<Rightarrow> pyfloat option) \<Rightarrow> (string \<rightharpoonup> pyval) \<Rightarrow> string list \<Rightarrow> int set
     \<Rightarrow> py_error + int set" where
  "build_exclusion_set_loop pf row [] excluded = Inr excluded"
| "build_exclusion_set_loop pf row (col # cols) excluded =
     (case normalize_id pf (row_get row col) of
        Inl e \<Rightarrow> Inl e
      | Inr None \<Rightarrow> build_exclusion_set_loop pf row cols excluded
      | Inr (Some rid) \<Rightarrow> build_exclusion_set_loop pf row cols (insert rid excluded))"

definition build_exclusion_set ::
  "(string \<Rightarrow> pyfloat option) \<Rightarrow> (string \<rightharpoonup> pyval) \<Rightarrow> string list
     \<Rightarrow> py_error + int set" where
  "build_exclusion_set pf row exclusion_cols =
     build_exclusion_set_loop pf row exclusion_cols {}"

subsection \<open>The driver\<close>

definition ASSIGNMENTS_PER_APPLICATION :: int where
  "ASSIGNMENTS_PER_APPLICATION = 3"

definition MAX_ASSIGNMENTS_PER_REVIEWER :: int where
  "MAX_ASSIGNMENTS_PER_REVIEWER = 5"

definition MIN_ASSIGNMENTS_PER_REVIEWER :: int where
  "MIN_ASSIGNMENTS_PER_REVIEWER = 3"

text \<open>
  A row of the output table; an assigned slot holds the reviewer or the empty string.
\<close>

record out_row =
  application_id :: pyval
  assigned_reviewers :: "pyval list"
  excluded_count :: nat
  eligible_pool_size :: nat
  used_fallback :: bool

text \<open>
  A warning is the text \<^verbatim>\<open>Application {app_id}: only {len(picks)} eligible reviewers
  (needed {ASSIGNMENTS_PER_APPLICATION}).\<close>; the model keeps the three values it prints.
\<close>

record warning =
  warned_application :: pyval
  found_reviewers :: nat
  needed_reviewers :: int

text \<open>What the loop of \<open>main\<close> changes: three local variables and the generator.\<close>

record run_state =
  loads :: "int \<rightharpoonup> int"
  output_rows :: "out_row list"
  warnings :: "warning list"
  rng_state :: rng

text \<open>\<^verbatim>\<open>for rid in picks: loads[rid] = loads.get(rid, 0) + 1\<close>\<close>

definition update_loads :: "int list \<Rightarrow> (int \<rightharpoonup> int) \<Rightarrow> (int \<rightharpoonup> int)" where
  "update_loads picks lds = fold (\<lambda>rid l. l(rid \<mapsto> loads_get l rid + 1)) picks lds"

text \<open>
  The loop body after the selector has returned (lines 194 to 215): the warning, the
  conflict check, the update of the loads and the output row.
\<close>

definition record_picks ::
  "run_state \<Rightarrow> pyval \<Rightarrow> int set \<Rightarrow> int list \<Rightarrow> int list \<Rightarrow> (int \<rightharpoonup> int) \<Rightarrow> rng
     \<Rightarrow> py_error + run_state" where
  "record_picks st app_id excluded eligible picks lds g =
     (let warnings' =
            (if int (length picks) < ASSIGNMENTS_PER_APPLICATION
             then warnings st @
                    [\<lparr>warned_application = app_id, found_reviewers = length picks,
                      needed_reviewers = ASSIGNMENTS_PER_APPLICATION\<rparr>]
             else warnings st)
      in if set picks \<inter> excluded \<noteq> {}
         then Inl (RuntimeError app_id (set picks \<inter> excluded))
         else
           Inr \<lparr>loads = update_loads picks lds,
                output_rows = output_rows st @
                  [\<lparr>application_id = app_id,
                    assigned_reviewers =
                      map (\<lambda>i. if i < length picks then PInt (picks ! i) else PStr [])
                          [0 ..< nat ASSIGNMENTS_PER_APPLICATION],
                    excluded_count = card excluded,
                    eligible_pool_size = length eligible,
                    used_fallback = (int (length picks) < ASSIGNMENTS_PER_APPLICATION)\<rparr>],
                warnings = warnings',
                rng_state = g\<rparr>)"

text \<open>The whole loop body, for one row of the applicants table.\<close>

definition process_row ::
  "(string \<Rightarrow> pyfloat option) \<Rightarrow> string list \<Rightarrow> int list \<Rightarrow> run_state
     \<Rightarrow> (string \<rightharpoonup> pyval) \<Rightarrow> py_error + run_state" where
  "process_row pf exclusion_cols global_reviewers st row =
     (let app_id = row_get row ''Application ID'' in
      case build_exclusion_set pf row exclusion_cols of
        Inl e \<Rightarrow> Inl e
      | Inr excluded \<Rightarrow>
          (let eligible = filter (\<lambda>rid. rid \<notin> excluded) global_reviewers
           in case choose_reviewers_with_minmax eligible ASSIGNMENTS_PER_APPLICATION (loads st)
                     (Some MIN_ASSIGNMENTS_PER_REVIEWER) (Some MAX_ASSIGNMENTS_PER_REVIEWER)
                     (rng_state st) of
                Inl e \<Rightarrow> Inl e
              | Inr (picks, lds, g) \<Rightarrow>
                  record_picks st app_id excluded eligible picks lds g))"

fun main_loop ::
  "(string \<Rightarrow> pyfloat option) \<Rightarrow> string list \<Rightarrow> int list \<Rightarrow> run_state
     \<Rightarrow> (string \<rightharpoonup> pyval) list \<Rightarrow> py_error + run_state" where
  "main_loop pf exclusion_cols global_reviewers st [] = Inr st"
| "main_loop pf exclusion_cols global_reviewers st (row # rest) =
     (case process_row pf exclusion_cols global_reviewers st row of
        Inl e \<Rightarrow> Inl e
      | Inr st' \<Rightarrow> main_loop pf exclusion_cols global_reviewers st' rest)"

text \<open>The state before the first application: every reviewer of the pool has load 0.\<close>

definition initial_state :: "int list \<Rightarrow> rng \<Rightarrow> run_state" where
  "initial_state global_reviewers g =
     \<lparr>loads = map_of (map (\<lambda>rid. (rid, 0)) global_reviewers),
      output_rows = [], warnings = [], rng_state = g\<rparr>"

text \<open>
  \<open>main\<close>: the applicants table \<open>df\<close>, the rows \<open>reader\<close> of the reviewers file and the
  seeded generator \<open>g\<close> are its inputs. It returns the final state, whose
  \<open>output_rows\<close> are written to the output file, or the exception that ends the run
  before anything is written.
\<close>

definition main ::
  "(string \<Rightarrow> pyfloat option) \<Rightarrow> dataframe \<Rightarrow> string list list \<Rightarrow> rng
     \<Rightarrow> py_error + run_state" where
  "main pf df reader g =
     (if ''Application ID'' \<notin> set (columns df)
      then Inl (ValueError ''Applicants CSV must contain an 'Application ID' column.'')
      else
        let exclusion_cols = get_exclusion_cols df
        in case load_reviewer_ids pf reader of
             Inl e \<Rightarrow> Inl e
           | Inr reviewer_ids \<Rightarrow>
               if reviewer_ids = []
               then Inl (ValueError ''No reviewer IDs found in reviewers CSV.'')
               else
                 (case shuffle reviewer_ids g of
                    (global_reviewers, g') \<Rightarrow>
                      main_loop pf exclusion_cols global_reviewers
                        (initial_state global_reviewers g') (rows df)))"

subsection \<open>An example run\<close>

text \<open>
  Two applications, the first of which excludes reviewer 1, and a reviewers file that
  yields the pool 1, 2: a blank row, a row that is not a number and a repetition are
  dropped.
\<close>

definition example_applicants :: dataframe where
  "example_applicants =
     \<lparr>columns = [''Application ID'', ''Reviewer 1''],
      rows = [[''Application ID'' \<mapsto> PStr ''A'', ''Reviewer 1'' \<mapsto> PInt 1],
              [''Application ID'' \<mapsto> PStr ''B'', ''Reviewer 1'' \<mapsto> PFloat NaN]]\<rparr>"

definition example_reviewers :: "string list list" where
  "example_reviewers = [[''1''], [], [''2''], [''x''], [''2.0'']]"

text \<open>
  The same run with an exclusion cell of 4301 digits in the second application. The
  first application, which excludes reviewer 1, can only get reviewer 2.
\<close>

definition long_digits :: string where
  "long_digits = replicate 4301 (CHR ''1'')"

definition long_cell_applicants :: dataframe where
  "long_cell_applicants =
     \<lparr>columns = [''Application ID'', ''Reviewer 1''],
      rows = [[''Application ID'' \<mapsto> PStr ''A'', ''Reviewer 1'' \<mapsto> PInt 1],
              [''Application ID'' \<mapsto> PStr ''B'', ''Reviewer 1'' \<mapsto> PStr long_digits]]\<rparr>"

section \<open>Properties of the random module\<close>

lemma randbelow_less: "0 < n \<Longrightarrow> fst (randbelow n g) < n"
  by (cases g) auto

lemma shuffle_loop_mset: "i < length x \<Longrightarrow> mset (fst (shuffle_loop i x g)) = mset x"
proof (induction i arbitrary: x g)
  case 0
  then show ?case by simp
next
  case (Suc i)
  obtain j g' where r: "randbelow (Suc i + 1) g = (j, g')" by (cases "randbelow (Suc i + 1) g")
  have "j < Suc i + 1" using randbelow_less [of "Suc i + 1" g] r by simp
  with Suc.prems have j: "j < length x" by simp
  let ?y = "(x[Suc i := x ! j])[j := x ! Suc i]"
  have "mset ?y = mset x" using j Suc.prems by (simp add: mset_swap)
  moreover have "mset (fst (shuffle_loop i ?y g')) = mset ?y"
    using Suc.prems by (intro Suc.IH) simp
  ultimately show ?case using r by simp
qed

lemma shuffle_mset: "mset (fst (shuffle x g)) = mset x"
proof (cases x)
  case Nil
  then show ?thesis by (simp add: shuffle_def)
next
  case (Cons a as)
  then show ?thesis by (simp add: shuffle_def shuffle_loop_mset)
qed

lemma sample_step_mset:
  assumes "j < m" "m \<le> length pool"
  shows "add_mset (pool ! j) (mset (take (m - 1) (pool[j := pool ! (m - 1)]))) = mset (take m pool)"
proof -
  from assms obtain m' where m: "m = Suc m'" by (cases m) auto
  have tk: "take m pool = take m' pool @ [pool ! m']"
    using assms m by (simp add: take_Suc_conv_app_nth)
  show ?thesis
  proof (cases "j = m'")
    case True
    then show ?thesis using tk m by simp
  next
    case False
    with assms m have jl: "j < m'" by simp
    have "take m' (pool[j := pool ! m']) = (take m' pool)[j := pool ! m']"
      using jl by (simp add: take_update_swap)
    moreover have "j < length (take m' pool)" using jl assms m by simp
    moreover have "take m' pool ! j = pool ! j" using jl by simp
    moreover have "pool ! j \<in># mset (take m' pool)"
      using calculation by (metis nth_mem set_mset_mset)
    ultimately show ?thesis using tk m by (simp add: mset_update)
  qed
qed

lemma sample_loop_mset:
  "c \<le> m \<Longrightarrow> m \<le> length pool \<Longrightarrow>
   \<exists>rest. mset (fst (sample_loop c m pool res g)) + rest = mset res + mset (take m pool)
         \<and> size rest = m - c"
proof (induction c arbitrary: m pool res g)
  case 0
  then show ?case by simp
next
  case (Suc c)
  obtain j g' where r: "randbelow m g = (j, g')" by (cases "randbelow m g")
  have j: "j < m" using randbelow_less [of m g] r Suc.prems by simp
  let ?pool = "pool[j := pool ! (m - 1)]"
  have "\<exists>rest. mset (fst (sample_loop c (m - 1) ?pool (res @ [pool ! j]) g')) + rest
           = mset (res @ [pool ! j]) + mset (take (m - 1) ?pool) \<and> size rest = m - 1 - c"
    using Suc.prems by (intro Suc.IH) simp_all
  then obtain rest where
    "mset (fst (sample_loop c (m - 1) ?pool (res @ [pool ! j]) g')) + rest
       = mset (res @ [pool ! j]) + mset (take (m - 1) ?pool)" "size rest = m - 1 - c"
    by blast
  moreover have "mset (res @ [pool ! j]) + mset (take (m - 1) ?pool) = mset res + mset (take m pool)"
    using sample_step_mset [OF j Suc.prems(2)] by simp
  ultimately have "mset (fst (sample_loop c (m - 1) ?pool (res @ [pool ! j]) g')) + rest
       = mset res + mset (take m pool)" by (simp only:)
  moreover have "fst (sample_loop (Suc c) m pool res g)
       = fst (sample_loop c (m - 1) ?pool (res @ [pool ! j]) g')" using r by simp
  moreover have "size rest = m - Suc c" using \<open>size rest = m - 1 - c\<close> by simp
  ultimately show ?case by metis
qed

lemma sample_ok:
  assumes "0 \<le> k" "k \<le> int (length pool)"
  shows "\<exists>res g'. sample pool k g = Inr (res, g') \<and> length res = nat k
            \<and> mset res \<subseteq># mset pool \<and> (nat k = length pool \<longrightarrow> mset res = mset pool)"
proof -
  obtain res g' where s: "sample_loop (nat k) (length pool) pool [] g = (res, g')"
    by (cases "sample_loop (nat k) (length pool) pool [] g")
  have kl: "nat k \<le> length pool" using assms by simp
  obtain rest where rest: "mset res + rest = mset pool" "size rest = length pool - nat k"
    using sample_loop_mset [OF kl order_refl, of "[]" g] s by auto
  have "size (mset res) + size rest = size (mset pool)" using rest(1) by (metis size_union)
  then have "length res = nat k" using rest(2) assms by simp
  moreover have "mset res \<subseteq># mset pool" using rest(1) by (metis mset_subset_eq_add_left)
  moreover have "nat k = length pool \<longrightarrow> mset res = mset pool" using rest by auto
  ultimately show ?thesis using s assms by (simp add: sample_def)
qed

text \<open>Every arrangement is the outcome of \<open>shuffle\<close>, and of a full \<open>sample\<close>, for some draws.\<close>

lemma mset_take_Suc_in:
  assumes "i < length y" "mset (take (Suc i) y) = mset (take (Suc i) x)" "length y = length x"
  shows "\<exists>j \<le> i. x ! j = y ! i"
proof -
  have "y ! i \<in> set (take (Suc i) y)"
    using assms(1) by (simp add: take_Suc_conv_app_nth)
  then have "y ! i \<in> set (take (Suc i) x)"
    using assms(2) by (metis set_mset_mset)
  then obtain j where "j < length (take (Suc i) x)" "take (Suc i) x ! j = y ! i"
    by (metis in_set_conv_nth)
  then show ?thesis by (intro exI [of _ j]) auto
qed

lemma shuffle_loop_reach:
  "i < length x \<Longrightarrow> length y = length x
   \<Longrightarrow> mset (take (Suc i) y) = mset (take (Suc i) x)
   \<Longrightarrow> drop (Suc i) y = drop (Suc i) x
   \<Longrightarrow> \<exists>g. \<forall>h. shuffle_loop i x (g @ h) = (y, h)"
proof (induction i arbitrary: x)
  case 0
  then have "take (Suc 0) y = take (Suc 0) x"
    by (cases x; cases y) auto
  then have "y = x" using 0(4) by (metis append_take_drop_id)
  then have "\<forall>h. shuffle_loop 0 x ([] @ h) = (y, h)" by simp
  then show ?case by blast
next
  case (Suc i)
  let ?n = "Suc (Suc i)"
  have iy: "Suc i < length y" using Suc.prems by simp
  from mset_take_Suc_in [OF iy Suc.prems(3) Suc.prems(2)]
  obtain j where j: "j \<le> Suc i" "x ! j = y ! Suc i" by blast
  let ?x = "(x[Suc i := x ! j])[j := x ! Suc i]"
  have lx: "length ?x = length x" by simp
  have jl: "j < length x" using j(1) Suc.prems(1) by simp
  have at: "?x ! Suc i = y ! Suc i"
    using j Suc.prems(1) by (cases "j = Suc i") simp_all
  have tk: "take ?n ?x = ((take ?n x)[Suc i := take ?n x ! j])[j := take ?n x ! Suc i]"
    using j(1) by (simp add: take_update_swap)
  have "mset (take ?n ?x) = mset (take ?n x)"
    unfolding tk using j(1) Suc.prems(1) by (intro mset_swap) simp_all
  then have m2: "mset (take ?n ?x) = mset (take ?n y)" using Suc.prems(3) by simp
  have "take ?n ?x = take (Suc i) ?x @ [y ! Suc i]"
    using Suc.prems(1) at lx by (metis take_Suc_conv_app_nth)
  moreover have "take ?n y = take (Suc i) y @ [y ! Suc i]"
    using iy by (simp add: take_Suc_conv_app_nth)
  ultimately have m: "mset (take (Suc i) y) = mset (take (Suc i) ?x)"
    using m2 by simp
  have "drop ?n ?x = drop ?n x" using j(1) by simp
  then have "drop ?n ?x = drop ?n y" using Suc.prems(4) by simp
  moreover have "drop (Suc i) ?x = ?x ! Suc i # drop ?n ?x"
    using Suc.prems(1) lx by (metis Cons_nth_drop_Suc)
  moreover have "drop (Suc i) y = y ! Suc i # drop ?n y"
    using iy by (metis Cons_nth_drop_Suc)
  ultimately have d: "drop (Suc i) y = drop (Suc i) ?x" using at by simp
  have "i < length ?x" using Suc.prems(1) by simp
  moreover have "length y = length ?x" using Suc.prems(2) by simp
  ultimately obtain g where g: "\<forall>h. shuffle_loop i ?x (g @ h) = (y, h)"
    using Suc.IH [of ?x] m d by blast
  have "shuffle_loop (Suc i) x ((j # g) @ h) = (y, h)" for h
    using g j(1) by simp
  then show ?case by blast
qed

lemma shuffle_reach:
  assumes "mset y = mset x"
  shows "\<exists>g. \<forall>h. shuffle x (g @ h) = (y, h)"
proof (cases x)
  case Nil
  then have "\<forall>h. shuffle x ([] @ h) = (y, h)" using assms by (simp add: shuffle_def)
  then show ?thesis by blast
next
  case (Cons a as)
  have l: "length y = length x" using assms by (metis size_mset)
  have "length x - 1 < length x" using Cons by simp
  moreover have "mset (take (Suc (length x - 1)) y) = mset (take (Suc (length x - 1)) x)"
    using assms l Cons by simp
  moreover have "drop (Suc (length x - 1)) y = drop (Suc (length x - 1)) x"
    using l Cons by simp
  ultimately show ?thesis
    unfolding shuffle_def using l by (intro shuffle_loop_reach)
qed

lemma sample_loop_reach:
  "m \<le> length pool \<Longrightarrow> mset y = mset (take m pool)
   \<Longrightarrow> \<exists>g. \<forall>h. sample_loop (length y) m pool res (g @ h) = (res @ y, h)"
proof (induction y arbitrary: m pool res)
  case Nil
  have "\<forall>h. sample_loop (length ([] :: 'a list)) m pool res ([] @ h) = (res @ [], h)" by simp
  then show ?case by blast
next
  case (Cons a y)
  have "a \<in> set (take m pool)" using Cons.prems(2) by (metis list.set_intros(1) set_mset_mset)
  then obtain j where j: "j < length (take m pool)" "take m pool ! j = a"
    by (metis in_set_conv_nth)
  then have jm: "j < m" and pj: "pool ! j = a" by simp_all
  let ?pool = "pool[j := pool ! (m - 1)]"
  from sample_step_mset [OF jm Cons.prems(1)] pj Cons.prems(2)
  have "add_mset a (mset (take (m - 1) ?pool)) = add_mset a (mset y)" by simp
  then have "mset y = mset (take (m - 1) ?pool)" by simp
  moreover have "m - 1 \<le> length ?pool" using Cons.prems(1) by simp
  ultimately obtain g where
    g: "\<forall>h. sample_loop (length y) (m - 1) ?pool (res @ [a]) (g @ h) = ((res @ [a]) @ y, h)"
    using Cons.IH [of "m - 1" ?pool "res @ [a]"] by blast
  have "sample_loop (length (a # y)) m pool res ((j # g) @ h) = (res @ a # y, h)" for h
    using g jm pj by simp
  then show ?case by blast
qed

section \<open>Properties of the selector\<close>

lemma mset_take_subseteq: "mset (take n xs) \<subseteq># mset xs"
  by (metis append_take_drop_id mset_append mset_subset_eq_add_left)

lemma distinct_mset_subseteq:
  assumes "mset xs \<subseteq># mset ys" "distinct ys"
  shows "distinct xs"
proof -
  have "count (mset xs) a = (if a \<in> set xs then 1 else 0)" for a
  proof -
    have "count (mset xs) a \<le> count (mset ys) a" using assms(1) by (rule mset_subset_eq_count)
    moreover have "count (mset ys) a \<le> 1" using assms(2) by (simp add: distinct_count_atmost_1)
    ultimately have le: "count (mset xs) a \<le> 1" by simp
    show ?thesis
    proof (cases "a \<in> set xs")
      case True
      then have "1 \<le> count (mset xs) a" by (simp add: Suc_le_eq)
      with le have "count (mset xs) a = 1" by linarith
      then show ?thesis using True by simp
    next
      case False
      then show ?thesis by (simp add: count_eq_zero_iff)
    qed
  qed
  then show ?thesis by (simp add: distinct_count_atmost_1)
qed

lemma capped_pool_subset:
  "set (capped_pool eligible_pool lds max_load) \<subseteq> set eligible_pool"
  by (auto simp: capped_pool_def split: option.splits)

lemma capped_pool_distinct:
  "distinct eligible_pool \<Longrightarrow> distinct (capped_pool eligible_pool lds max_load)"
  by (auto simp: capped_pool_def split: option.splits)

lemma capped_pool_under_cap:
  "rid \<in> set (capped_pool eligible_pool lds (Some mx)) \<Longrightarrow> loads_get lds rid < mx"
  by (auto simp: capped_pool_def)

text \<open>With a positive minimum the picks are a prefix of the shuffled under-minimum group
  followed by a prefix of the shuffled rest.\<close>

lemma choose_soft_min_explicit:
  assumes "0 < mn"
    and U: "shuffle (filter (\<lambda>rid. loads_get lds rid < mn)
                      (capped_pool eligible_pool lds max_load)) g = (U, g1)"
    and A: "shuffle (filter (\<lambda>rid. loads_get lds rid \<ge> mn)
                      (capped_pool eligible_pool lds max_load)) g1 = (A, g2)"
  shows "choose_reviewers_with_minmax eligible_pool k lds (Some mn) max_load g
             = Inr (take (nat k) U @ take (nat k - length U) A, lds, g2)"
proof -
  let ?pool = "capped_pool eligible_pool lds max_load"
  have mU: "mset U = mset (filter (\<lambda>rid. loads_get lds rid < mn) ?pool)"
    using shuffle_mset [of "filter (\<lambda>rid. loads_get lds rid < mn) ?pool" g] U by simp
  have mA: "mset A = mset (filter (\<lambda>rid. loads_get lds rid \<ge> mn) ?pool)"
    using shuffle_mset [of "filter (\<lambda>rid. loads_get lds rid \<ge> mn) ?pool" g1] A by simp
  show ?thesis
  proof (cases "?pool = []")
    case True
    then have "U = []" "A = []" using mU mA by simp_all
    moreover have "g2 = g" using U A True by (simp add: shuffle_def)
    ultimately show ?thesis using True by (simp add: choose_reviewers_with_minmax_def Let_def)
  next
    case False
    have *: "choose_reviewers_with_minmax eligible_pool k lds (Some mn) max_load g
          = (let need = k;
                      take_n = min need (int (length U));
                      picks = (if take_n > 0 then take (nat take_n) U else []);
                      need = (if take_n > 0 then need - take_n else need);
                      picks =
                        (if need > 0 \<and> A \<noteq> []
                         then picks @ take (nat (min need (int (length A)))) A
                         else picks)
                  in Inr (picks, lds, g2))"
      using False assms U A by (simp add: choose_reviewers_with_minmax_def Let_def)
    show ?thesis
    proof (cases "min k (int (length U)) > 0")
      case True
      then have k: "0 < k" "U \<noteq> []" by auto
      have t1: "take (nat (min k (int (length U)))) U = take (nat k) U"
        by (cases "k \<le> int (length U)") (simp_all add: min_def)
      show ?thesis
      proof (cases "k - min k (int (length U)) > 0 \<and> A \<noteq> []")
        case True
        then have "int (length U) < k" by (simp add: min_def split: if_splits)
        then have "nat (k - min k (int (length U))) = nat k - length U" by (simp add: min_def)
        then have "take (nat (min (k - min k (int (length U))) (int (length A)))) A
                 = take (nat k - length U) A"
          by (cases "k - min k (int (length U)) \<le> int (length A)") (simp_all add: min_def)
        then show ?thesis using * True \<open>min k (int (length U)) > 0\<close> t1 by (simp add: Let_def)
      next
        case False
        then have "take (nat k - length U) A = []" by (auto simp: min_def split: if_splits)
        then show ?thesis using * False \<open>min k (int (length U)) > 0\<close> t1 by (simp add: Let_def)
      qed
    next
      case False
      then have c: "k \<le> 0 \<or> U = []" by (auto simp: min_def split: if_splits)
      then have t1: "take (nat k) U = []" by auto
      show ?thesis
      proof (cases "k > 0 \<and> A \<noteq> []")
        case True
        with c have "U = []" by auto
        then have "take (nat (min k (int (length A)))) A = take (nat k - length U) A"
          by (cases "k \<le> int (length A)") (simp_all add: min_def)
        then show ?thesis using * True False t1 by (simp add: Let_def)
      next
        case F2: False
        then have "take (nat k - length U) A = []" by auto
        then show ?thesis using * F2 False t1 by (simp add: Let_def)
      qed
    qed
  qed
qed

lemma choose_soft_min:
  assumes "0 < mn"
  shows "\<exists>U A g'.
           mset U = mset (filter (\<lambda>rid. loads_get lds rid < mn) (capped_pool eligible_pool lds max_load))
         \<and> mset A = mset (filter (\<lambda>rid. loads_get lds rid \<ge> mn) (capped_pool eligible_pool lds max_load))
         \<and> choose_reviewers_with_minmax eligible_pool k lds (Some mn) max_load g
             = Inr (take (nat k) U @ take (nat k - length U) A, lds, g')"
proof -
  let ?pool = "capped_pool eligible_pool lds max_load"
  obtain U g1 where U: "shuffle (filter (\<lambda>rid. loads_get lds rid < mn) ?pool) g = (U, g1)"
    by (cases "shuffle (filter (\<lambda>rid. loads_get lds rid < mn) ?pool) g")
  obtain A g2 where A: "shuffle (filter (\<lambda>rid. loads_get lds rid \<ge> mn) ?pool) g1 = (A, g2)"
    by (cases "shuffle (filter (\<lambda>rid. loads_get lds rid \<ge> mn) ?pool) g1")
  have mU: "mset U = mset (filter (\<lambda>rid. loads_get lds rid < mn) ?pool)"
    using shuffle_mset [of "filter (\<lambda>rid. loads_get lds rid < mn) ?pool" g] U by simp
  have mA: "mset A = mset (filter (\<lambda>rid. loads_get lds rid \<ge> mn) ?pool)"
    using shuffle_mset [of "filter (\<lambda>rid. loads_get lds rid \<ge> mn) ?pool" g1] A by simp
  from choose_soft_min_explicit [OF assms U A] mU mA show ?thesis by blast
qed

text \<open>Without a minimum the picks are a sample of the capped pool.\<close>

lemma choose_no_min:
  assumes "min_load = None \<or> (\<exists>mn. min_load = Some mn \<and> mn \<le> 0)" "0 \<le> k"
  shows "\<exists>picks g'.
           choose_reviewers_with_minmax eligible_pool k lds min_load max_load g = Inr (picks, lds, g')
         \<and> length picks = min (nat k) (length (capped_pool eligible_pool lds max_load))
         \<and> mset picks \<subseteq># mset (capped_pool eligible_pool lds max_load)
         \<and> (length (capped_pool eligible_pool lds max_load) \<le> nat k
              \<longrightarrow> mset picks = mset (capped_pool eligible_pool lds max_load))"
proof -
  let ?pool = "capped_pool eligible_pool lds max_load"
  show ?thesis
  proof (cases "?pool = []")
    case True
    then show ?thesis by (simp add: choose_reviewers_with_minmax_def Let_def)
  next
    case False
    let ?k = "min k (int (length ?pool))"
    have "0 \<le> ?k" "?k \<le> int (length ?pool)" using assms(2) by simp_all
    from sample_ok [OF this, of g] obtain res g' where
      s: "sample ?pool ?k g = Inr (res, g')" "length res = nat ?k" "mset res \<subseteq># mset ?pool"
         "nat ?k = length ?pool \<longrightarrow> mset res = mset ?pool" by blast
    have "choose_reviewers_with_minmax eligible_pool k lds min_load max_load g = Inr (res, lds, g')"
      using assms(1) False s(1) by (auto simp: choose_reviewers_with_minmax_def Let_def)
    moreover have nk: "nat ?k = min (nat k) (length ?pool)" using assms(2) by arith
    moreover have "length res = min (nat k) (length ?pool)" using s(2) nk by simp
    moreover have "length ?pool \<le> nat k \<longrightarrow> mset res = mset ?pool"
      using s(4) nk by (simp add: min_def)
    ultimately show ?thesis using s(3) by blast
  qed
qed

lemma mset_filter_split:
  "mset (filter (\<lambda>rid. loads_get lds rid < mn) xs) + mset (filter (\<lambda>rid. mn \<le> loads_get lds rid) xs)
     = mset xs"
proof -
  have "(\<lambda>rid. mn \<le> loads_get lds rid) = (\<lambda>rid. \<not> loads_get lds rid < mn)" by (simp add: not_less)
  then show ?thesis by simp
qed

lemma choose_picks:
  assumes "0 \<le> k"
  shows "\<exists>picks g'.
           choose_reviewers_with_minmax eligible_pool k lds min_load max_load g = Inr (picks, lds, g')
         \<and> length picks \<le> nat k
         \<and> mset picks \<subseteq># mset (capped_pool eligible_pool lds max_load)
         \<and> (length (capped_pool eligible_pool lds max_load) \<le> nat k
              \<longrightarrow> mset picks = mset (capped_pool eligible_pool lds max_load))"
proof (cases "min_load = None \<or> (\<exists>mn. min_load = Some mn \<and> mn \<le> 0)")
  case True
  from choose_no_min [OF True assms, of eligible_pool lds max_load g]
  show ?thesis by (metis min.cobounded1)
next
  case False
  then obtain mn where mn: "min_load = Some mn" "0 < mn" by (cases min_load) auto
  let ?pool = "capped_pool eligible_pool lds max_load"
  from choose_soft_min [OF mn(2), of lds eligible_pool max_load k g] obtain U A g' where
    U: "mset U = mset (filter (\<lambda>rid. loads_get lds rid < mn) ?pool)" and
    A: "mset A = mset (filter (\<lambda>rid. loads_get lds rid \<ge> mn) ?pool)" and
    c: "choose_reviewers_with_minmax eligible_pool k lds (Some mn) max_load g
             = Inr (take (nat k) U @ take (nat k - length U) A, lds, g')" by blast
  let ?picks = "take (nat k) U @ take (nat k - length U) A"
  have UA: "mset U + mset A = mset ?pool" using U A mset_filter_split by simp
  then have len: "length U + length A = length ?pool" by (metis size_mset size_union)
  have "length ?picks \<le> nat k" by simp
  moreover have "mset ?picks \<subseteq># mset ?pool"
    using subset_mset.add_mono [OF mset_take_subseteq [of "nat k" U]
        mset_take_subseteq [of "nat k - length U" A]] UA by simp
  moreover have "length ?pool \<le> nat k \<longrightarrow> mset ?picks = mset ?pool"
    using UA len by auto
  ultimately show ?thesis using c mn(1) by blast
qed

text \<open>
  C3. For an eligible pool without repetitions and a target \<open>k\<close> that is not negative,
  whatever the loads, the bounds and the random draws are, the selector returns a list of
  at most \<open>k\<close> reviewers, none of them twice, all of them members of the eligible
  pool, and all of them with a load below the maximum when a maximum is set. It leaves
  the load table as it was.
\<close>

theorem selector_result_sound:
  assumes "distinct eligible_pool" and "0 \<le> k"
  shows "\<exists>picks g'.
           choose_reviewers_with_minmax eligible_pool k lds min_load max_load g = Inr (picks, lds, g')
         \<and> int (length picks) \<le> k
         \<and> distinct picks
         \<and> set picks \<subseteq> set eligible_pool
         \<and> (\<forall>mx rid. max_load = Some mx \<and> rid \<in> set picks \<longrightarrow> loads_get lds rid < mx)"
proof -
  let ?pool = "capped_pool eligible_pool lds max_load"
  from choose_picks [OF assms(2), of eligible_pool lds min_load max_load g] obtain picks g' where
    c: "choose_reviewers_with_minmax eligible_pool k lds min_load max_load g = Inr (picks, lds, g')"
    and l: "length picks \<le> nat k" and m: "mset picks \<subseteq># mset ?pool" by blast
  have "int (length picks) \<le> k" using l assms(2) by simp
  moreover have "distinct picks"
    using m capped_pool_distinct [OF assms(1)] by (rule distinct_mset_subseteq)
  moreover have s: "set picks \<subseteq> set ?pool" using m by (metis set_mset_mono set_mset_mset)
  then have "set picks \<subseteq> set eligible_pool" using capped_pool_subset by blast
  moreover have "\<forall>mx rid. max_load = Some mx \<and> rid \<in> set picks \<longrightarrow> loads_get lds rid < mx"
    using s capped_pool_under_cap by blast
  ultimately show ?thesis using c by blast
qed

text \<open>
  C4. With a positive minimum, when \<open>k\<close> is at most the number of reviewers of the
  capped pool below the minimum, every pick is one of those reviewers (and there are
  \<open>k\<close> picks): nobody at or above the minimum is touched. In particular so when the
  capped pool holds reviewers of both kinds.
\<close>

theorem soft_min_preference:
  assumes "0 < mn"
    and "k \<le> int (length (filter (\<lambda>rid. loads_get lds rid < mn)
                              (capped_pool eligible_pool lds max_load)))"
  shows "\<exists>picks g'.
           choose_reviewers_with_minmax eligible_pool k lds (Some mn) max_load g = Inr (picks, lds, g')
         \<and> set picks \<subseteq> set (filter (\<lambda>rid. loads_get lds rid < mn)
                                 (capped_pool eligible_pool lds max_load))
         \<and> length picks = nat k"
proof -
  let ?under = "filter (\<lambda>rid. loads_get lds rid < mn) (capped_pool eligible_pool lds max_load)"
  from choose_soft_min [OF assms(1), of lds eligible_pool max_load k g] obtain U A g' where
    U: "mset U = mset ?under" and
    c: "choose_reviewers_with_minmax eligible_pool k lds (Some mn) max_load g
             = Inr (take (nat k) U @ take (nat k - length U) A, lds, g')" by blast
  have lU: "length U = length ?under" using U by (metis size_mset)
  then have k: "nat k \<le> length U" using assms(2) by simp
  then have p: "take (nat k) U @ take (nat k - length U) A = take (nat k) U" by simp
  have "set (take (nat k) U) \<subseteq> set U" by (rule set_take_subset)
  moreover have "set U = set ?under" using U by (metis set_mset_mset)
  moreover have "length (take (nat k) U) = nat k" using k by simp
  ultimately show ?thesis using c p by (metis (no_types, lifting))
qed

theorem selector_result_sound_witness:
  "distinct [1, 2, 3, 4, 5 :: int] \<and> (0 :: int) \<le> 3 \<and>
   (\<exists>g'. choose_reviewers_with_minmax [1, 2, 3, 4, 5] 3 [1 \<mapsto> 2, 2 \<mapsto> 0, 3 \<mapsto> 0, 4 \<mapsto> 1]
            (Some 1) (Some 2) [0, 1, 2, 3]
          = Inr ([5, 3, 2], [1 \<mapsto> 2, 2 \<mapsto> 0, 3 \<mapsto> 0, 4 \<mapsto> 1], g'))"
proof -
  let ?lds = "[1 \<mapsto> 2, 2 \<mapsto> 0, 3 \<mapsto> 0, 4 \<mapsto> (1 :: int)] :: int \<rightharpoonup> int"
  let ?c = "choose_reviewers_with_minmax [1, 2, 3, 4, 5] 3 ?lds (Some 1) (Some 2) [0, 1, 2, 3]"
  have d: "distinct [1, 2, 3, 4, 5 :: int]" by simp
  have k: "(0 :: int) \<le> 3" by simp
  from selector_result_sound [OF d k, of ?lds "Some 1" "Some 2" "[0, 1, 2, 3]"]
  obtain picks g' where c: "?c = Inr (picks, ?lds, g')" by blast
  have "(case ?c of Inr (p, l, g) \<Rightarrow> p | Inl e \<Rightarrow> []) = [5, 3, 2]" by code_simp
  with c have "picks = [5, 3, 2]" by simp
  with c d show ?thesis by auto
qed

theorem soft_min_preference_witness:
  "(0 :: int) < 1 \<and>
   filter (\<lambda>rid. loads_get [1 \<mapsto> 2, 2 \<mapsto> 0, 3 \<mapsto> 0, 4 \<mapsto> 1] rid < 1)
     (capped_pool [1, 2, 3, 4, 5] [1 \<mapsto> 2, 2 \<mapsto> 0, 3 \<mapsto> 0, 4 \<mapsto> 1] (Some 2)) = [2, 3, 5] \<and>
   filter (\<lambda>rid. loads_get [1 \<mapsto> 2, 2 \<mapsto> 0, 3 \<mapsto> 0, 4 \<mapsto> 1] rid \<ge> 1)
     (capped_pool [1, 2, 3, 4, 5] [1 \<mapsto> 2, 2 \<mapsto> 0, 3 \<mapsto> 0, 4 \<mapsto> 1] (Some 2)) = [4] \<and>
   (\<exists>g'. choose_reviewers_with_minmax [1, 2, 3, 4, 5] 2 [1 \<mapsto> 2, 2 \<mapsto> 0, 3 \<mapsto> 0, 4 \<mapsto> 1]
            (Some 1) (Some 2) [0, 1, 2, 3]
          = Inr ([5, 3], [1 \<mapsto> 2, 2 \<mapsto> 0, 3 \<mapsto> 0, 4 \<mapsto> 1], g'))"
proof -
  let ?lds = "[1 \<mapsto> 2, 2 \<mapsto> 0, 3 \<mapsto> 0, 4 \<mapsto> (1 :: int)] :: int \<rightharpoonup> int"
  let ?c = "choose_reviewers_with_minmax [1, 2, 3, 4, 5] 2 ?lds (Some 1) (Some 2) [0, 1, 2, 3]"
  have m: "(0 :: int) < 1" by simp
  have u: "filter (\<lambda>rid. loads_get ?lds rid < 1) (capped_pool [1, 2, 3, 4, 5] ?lds (Some 2)) = [2, 3, 5]"
    by (simp add: capped_pool_def loads_get_def)
  have a: "filter (\<lambda>rid. loads_get ?lds rid \<ge> 1) (capped_pool [1, 2, 3, 4, 5] ?lds (Some 2)) = [4]"
    by (simp add: capped_pool_def loads_get_def)
  have k: "2 \<le> int (length (filter (\<lambda>rid. loads_get ?lds rid < 1)
                                (capped_pool [1, 2, 3, 4, 5] ?lds (Some 2))))"
    by (simp only: u) simp
  from soft_min_preference [OF m k, of "[0, 1, 2, 3]"]
  obtain picks g' where c: "?c = Inr (picks, ?lds, g')" by blast
  have "(case ?c of Inr (p, l, g) \<Rightarrow> p | Inl e \<Rightarrow> []) = [5, 3]" by code_simp
  with c have "picks = [5, 3]" by simp
  with c m u a show ?thesis by blast
qed

text \<open>
  C6, as amended. When \<open>k\<close> is at least the size of the pool left by the cap, the
  selector returns the whole capped pool, in an order that the random draws decide within
  the priority of the soft minimum. With no minimum in force every arrangement of the
  capped pool is the result for some draws. With a minimum in force the result is the
  reviewers below the minimum followed by the others, and every arrangement of the first
  group followed by every arrangement of the second is the result for some draws.
\<close>

theorem selector_whole_pool:
  assumes "int (length (capped_pool eligible_pool lds max_load)) \<le> k"
  shows "(\<exists>picks g'.
            choose_reviewers_with_minmax eligible_pool k lds min_load max_load g = Inr (picks, lds, g')
          \<and> mset picks = mset (capped_pool eligible_pool lds max_load))
     \<and> ((min_load = None \<or> (\<exists>m. min_load = Some m \<and> m \<le> 0))
          \<and> mset ys = mset (capped_pool eligible_pool lds max_load)
        \<longrightarrow> (\<exists>g0 g'. choose_reviewers_with_minmax eligible_pool k lds min_load max_load g0
                        = Inr (ys, lds, g')))
     \<and> (min_load = Some mn \<and> 0 < mn
        \<longrightarrow> (\<exists>U A g'.
               choose_reviewers_with_minmax eligible_pool k lds min_load max_load g
                 = Inr (U @ A, lds, g')
             \<and> mset U = mset (filter (\<lambda>rid. loads_get lds rid < mn)
                                (capped_pool eligible_pool lds max_load))
             \<and> mset A = mset (filter (\<lambda>rid. loads_get lds rid \<ge> mn)
                                (capped_pool eligible_pool lds max_load))))
     \<and> (min_load = Some mn \<and> 0 < mn
          \<and> mset U0 = mset (filter (\<lambda>rid. loads_get lds rid < mn)
                             (capped_pool eligible_pool lds max_load))
          \<and> mset A0 = mset (filter (\<lambda>rid. loads_get lds rid \<ge> mn)
                             (capped_pool eligible_pool lds max_load))
        \<longrightarrow> (\<exists>g0 g'. choose_reviewers_with_minmax eligible_pool k lds min_load max_load g0
                        = Inr (U0 @ A0, lds, g')))"
proof -
  let ?pool = "capped_pool eligible_pool lds max_load"
  let ?under = "filter (\<lambda>rid. loads_get lds rid < mn) ?pool"
  let ?above = "filter (\<lambda>rid. loads_get lds rid \<ge> mn) ?pool"
  have k: "0 \<le> k" using assms by simp
  have kl: "length ?pool \<le> nat k" using assms by simp
  have a: "\<exists>picks g'.
            choose_reviewers_with_minmax eligible_pool k lds min_load max_load g = Inr (picks, lds, g')
          \<and> mset picks = mset ?pool"
    using choose_picks [OF k, of eligible_pool lds min_load max_load g] kl by blast
  have whole: "take (nat k) U @ take (nat k - length U) A = U @ A"
    if "mset U = mset ?under" "mset A = mset ?above" for U A
  proof -
    have "mset U + mset A = mset ?pool" using that mset_filter_split by simp
    then have "length U + length A = length ?pool" by (metis size_mset size_union)
    then show ?thesis using kl by simp
  qed
  have b: "\<exists>g0 g'. choose_reviewers_with_minmax eligible_pool k lds min_load max_load g0
                        = Inr (ys, lds, g')"
    if nm: "min_load = None \<or> (\<exists>m. min_load = Some m \<and> m \<le> 0)" and ys: "mset ys = mset ?pool"
  proof (cases "?pool = []")
    case True
    then have "ys = []" using ys by simp
    then have "choose_reviewers_with_minmax eligible_pool k lds min_load max_load []
                 = Inr (ys, lds, [])"
      using True by (simp add: choose_reviewers_with_minmax_def Let_def)
    then show ?thesis by blast
  next
    case False
    have l: "length ys = length ?pool" using ys by (metis size_mset)
    from sample_loop_reach [of "length ?pool" ?pool ys "[]"] ys
    obtain g0 where "\<forall>h. sample_loop (length ys) (length ?pool) ?pool [] (g0 @ h) = ([] @ ys, h)"
      by auto
    then have s: "sample_loop (length ?pool) (length ?pool) ?pool [] g0 = (ys, [])"
      using l by (metis append_Nil append_Nil2)
    have "min k (int (length ?pool)) = int (length ?pool)" using assms by simp
    then have "sample ?pool (min k (int (length ?pool))) g0 = Inr (ys, [])"
      using s by (simp add: sample_def)
    then have "choose_reviewers_with_minmax eligible_pool k lds min_load max_load g0
                 = Inr (ys, lds, [])"
      using nm False by (auto simp: choose_reviewers_with_minmax_def Let_def)
    then show ?thesis by blast
  qed
  have c1: "\<exists>U A g'.
               choose_reviewers_with_minmax eligible_pool k lds min_load max_load g
                 = Inr (U @ A, lds, g')
             \<and> mset U = mset ?under \<and> mset A = mset ?above"
    if "min_load = Some mn" "0 < mn"
  proof -
    from choose_soft_min [OF that(2), of lds eligible_pool max_load k g] obtain U A g' where
      "mset U = mset ?under" "mset A = mset ?above"
      "choose_reviewers_with_minmax eligible_pool k lds (Some mn) max_load g
         = Inr (take (nat k) U @ take (nat k - length U) A, lds, g')" by blast
    then show ?thesis using whole [of U A] that(1) by auto
  qed
  have c2: "\<exists>g0 g'. choose_reviewers_with_minmax eligible_pool k lds min_load max_load g0
                        = Inr (U0 @ A0, lds, g')"
    if "min_load = Some mn" "0 < mn" "mset U0 = mset ?under" "mset A0 = mset ?above"
  proof -
    from shuffle_reach [OF that(3)] obtain gU where gU: "\<forall>h. shuffle ?under (gU @ h) = (U0, h)"
      by blast
    from shuffle_reach [OF that(4)] obtain gA where gA: "\<forall>h. shuffle ?above (gA @ h) = (A0, h)"
      by blast
    have U: "shuffle ?under (gU @ gA) = (U0, gA)" using gU by blast
    have A: "shuffle ?above gA = (A0, [])" using gA by (metis append_Nil2)
    from choose_soft_min_explicit [OF that(2) U A, of k] whole [OF that(3) that(4)] that(1)
    show ?thesis by auto
  qed
  show ?thesis using a b c1 c2 by blast
qed

text \<open>
  C6 as stated fails: for the pool 4, 2 with loads 1 and 0, minimum 1 and \<open>k = 2\<close>, the
  result is 2, 4 whatever the draws are. The order is that of the priority, not a random
  one.
\<close>

theorem selector_fixed_order_counterexample:
  "int (length (capped_pool [4, 2] [4 \<mapsto> 1, 2 \<mapsto> 0] (Some 2))) \<le> 2
   \<and> (\<forall>g. choose_reviewers_with_minmax [4, 2] 2 [4 \<mapsto> 1, 2 \<mapsto> 0] (Some 1) (Some 2) g
            = Inr ([2, 4], [4 \<mapsto> 1, 2 \<mapsto> 0], g))"
proof -
  let ?lds = "[4 \<mapsto> 1, 2 \<mapsto> (0 :: int)] :: int \<rightharpoonup> int"
  have p: "capped_pool [4, 2] ?lds (Some 2) = [4, 2]"
    by (simp add: capped_pool_def loads_get_def)
  have u: "filter (\<lambda>rid. loads_get ?lds rid < 1) [4, 2] = [2]"
    by (simp add: loads_get_def)
  have a: "filter (\<lambda>rid. loads_get ?lds rid \<ge> 1) [4, 2] = [4]"
    by (simp add: loads_get_def)
  have "choose_reviewers_with_minmax [4, 2] 2 ?lds (Some 1) (Some 2) g = Inr ([2, 4], ?lds, g)" for g
  proof -
    have U: "shuffle (filter (\<lambda>rid. loads_get ?lds rid < 1) (capped_pool [4, 2] ?lds (Some 2))) g
               = ([2], g)"
      by (simp only: p u) (simp add: shuffle_def)
    have A: "shuffle (filter (\<lambda>rid. loads_get ?lds rid \<ge> 1) (capped_pool [4, 2] ?lds (Some 2))) g
               = ([4], g)"
      by (simp only: p a) (simp add: shuffle_def)
    have m: "(0 :: int) < 1" by simp
    from choose_soft_min_explicit [OF m U A, of 2] show ?thesis by simp
  qed
  moreover have "int (length (capped_pool [4, 2] ?lds (Some 2))) \<le> 2" by (simp only: p) simp
  ultimately show ?thesis by (intro conjI allI)
qed

theorem selector_whole_pool_witness:
  "capped_pool [1, 2, 3, 4, 5] [1 \<mapsto> 2, 2 \<mapsto> 0, 3 \<mapsto> 0, 4 \<mapsto> 1] (Some 2) = [2, 3, 4, 5]
   \<and> (\<exists>g'. choose_reviewers_with_minmax [1, 2, 3, 4, 5] 7 [1 \<mapsto> 2, 2 \<mapsto> 0, 3 \<mapsto> 0, 4 \<mapsto> 1]
            (Some 1) (Some 2) [0, 1, 2, 3]
          = Inr ([5, 3, 2, 4], [1 \<mapsto> 2, 2 \<mapsto> 0, 3 \<mapsto> 0, 4 \<mapsto> 1], g'))
   \<and> (\<exists>g0 g'. choose_reviewers_with_minmax [1, 2, 3, 4, 5] 7 [1 \<mapsto> 2, 2 \<mapsto> 0, 3 \<mapsto> 0, 4 \<mapsto> 1]
            (Some 1) (Some 2) g0
          = Inr ([3, 5, 2] @ [4], [1 \<mapsto> 2, 2 \<mapsto> 0, 3 \<mapsto> 0, 4 \<mapsto> 1], g'))
   \<and> (\<exists>g0 g'. choose_reviewers_with_minmax [1, 2, 3, 4, 5] 7 [1 \<mapsto> 2, 2 \<mapsto> 0, 3 \<mapsto> 0, 4 \<mapsto> 1]
            None (Some 2) g0
          = Inr ([5, 4, 3, 2], [1 \<mapsto> 2, 2 \<mapsto> 0, 3 \<mapsto> 0, 4 \<mapsto> 1], g'))"
proof -
  let ?lds = "[1 \<mapsto> 2, 2 \<mapsto> 0, 3 \<mapsto> 0, 4 \<mapsto> (1 :: int)] :: int \<rightharpoonup> int"
  let ?c = "choose_reviewers_with_minmax [1, 2, 3, 4, 5] 7 ?lds (Some 1) (Some 2) [0, 1, 2, 3]"
  have p: "capped_pool [1, 2, 3, 4, 5] ?lds (Some 2) = [2, 3, 4, 5]"
    by (simp add: capped_pool_def loads_get_def)
  have k: "int (length (capped_pool [1, 2, 3, 4, 5] ?lds (Some 2))) \<le> 7"
    by (simp only: p) simp
  have u: "mset [3, 5, 2] = mset (filter (\<lambda>rid. loads_get ?lds rid < 1)
                                     (capped_pool [1, 2, 3, 4, 5] ?lds (Some 2)))"
    by (simp only: p) (simp add: loads_get_def add_mset_commute)
  have a: "mset [4] = mset (filter (\<lambda>rid. loads_get ?lds rid \<ge> 1)
                                     (capped_pool [1, 2, 3, 4, 5] ?lds (Some 2)))"
    by (simp only: p) (simp add: loads_get_def)
  have y: "mset [5, 4, 3, 2] = mset (capped_pool [1, 2, 3, 4, 5] ?lds (Some 2))"
    by (simp only: p) (simp add: add_mset_commute)
  have m: "(0 :: int) < 1" by simp
  note t1 = selector_whole_pool [OF k, where min_load = "Some 1" and mn = 1
      and g = "[0, 1, 2, 3]" and ?U0.0 = "[3, 5, 2]" and ?A0.0 = "[4]"]
  note t2 = selector_whole_pool [OF k, where min_load = None and ys = "[5, 4, 3, 2]"]
  from t1 [THEN conjunct1] obtain picks g' where c: "?c = Inr (picks, ?lds, g')" by blast
  have "(case ?c of Inr (p, l, g) \<Rightarrow> p | Inl e \<Rightarrow> []) = [5, 3, 2, 4]" by code_simp
  with c have "picks = [5, 3, 2, 4]" by simp
  with c have c1: "\<exists>g'. ?c = Inr ([5, 3, 2, 4], ?lds, g')" by blast
  have c2: "\<exists>g0 g'. choose_reviewers_with_minmax [1, 2, 3, 4, 5] 7 ?lds (Some 1) (Some 2) g0
          = Inr ([3, 5, 2] @ [4], ?lds, g')"
    by (rule t1 [THEN conjunct2, THEN conjunct2, THEN conjunct2, THEN mp,
          OF conjI [OF refl conjI [OF m conjI [OF u a]]]])
  have c3: "\<exists>g0 g'. choose_reviewers_with_minmax [1, 2, 3, 4, 5] 7 ?lds None (Some 2) g0
          = Inr ([5, 4, 3, 2], ?lds, g')"
    by (rule t2 [THEN conjunct2, THEN conjunct1, THEN mp, OF conjI [OF disjI1 [OF refl] y]])
  from p c1 c2 c3 show ?thesis by (intro conjI)
qed

section \<open>Properties of the identifier normalizer\<close>

lemma strip_no_space:
  assumes "\<forall>c \<in> set s. \<not> isspace c"
  shows "strip s = s"
proof -
  have "dropWhile isspace s = s" using assms by (cases s) auto
  moreover have "dropWhile isspace (rev s) = rev s" using assms by (cases "rev s") (auto simp: in_set_conv_decomp dest: arg_cong [where f = set])
  ultimately show ?thesis by (simp add: strip_def)
qed

lemma match_digits:
  assumes "ds \<noteq> []" "\<forall>c \<in> set ds. isdigit c"
  shows "ID_PATTERN_INT_OR_FLOAT_match ds = Some ds"
proof -
  have "\<not> isspace (hd ds)" using assms by (cases ds) (auto simp: isdigit_def isspace_def)
  then have "dropWhile isspace ds = ds" using assms(1) by (cases ds) auto
  then have "ID_PATTERN_INT_OR_FLOAT_match ds =
      (let r1 = ds; g = takeWhile isdigit r1; r2 = dropWhile isdigit r1;
           r3 = (case r2 of
                  c # t \<Rightarrow>
                    (if c = CHR ''.'' \<and> takeWhile (\<lambda>z. z = CHR ''0'') t \<noteq> []
                     then dropWhile (\<lambda>z. z = CHR ''0'') t else r2)
                | [] \<Rightarrow> r2)
      in if g \<noteq> [] \<and> dropWhile isspace r3 = [] then Some g else None)"
    by (simp only: ID_PATTERN_INT_OR_FLOAT_match_def)
  moreover have "takeWhile isdigit ds = ds" using assms(2) by simp
  moreover have "dropWhile isdigit ds = []" using assms(2) by simp
  ultimately show ?thesis using assms(1) by (simp only: Let_def list.case dropWhile.simps) simp
qed

lemma isdigit_not_space: "isdigit c \<Longrightarrow> \<not> isspace c"
  by (auto simp: isdigit_def isspace_def)

lemma comma_not_space: "\<not> isspace CHR '',''"
  by (simp add: isspace_def)

lemma digits_and_commas:
  assumes "\<forall>c \<in> set s. c = CHR '','' \<or> isdigit c" "remove_commas s \<noteq> []"
  shows "normalize_id pf (PStr s)
           = (case py_int (remove_commas s) of Inl e \<Rightarrow> Inl e | Inr n \<Rightarrow> Inr (Some n))"
proof -
  have "\<not> isspace c" if "c \<in> set s" for c
  proof -
    from assms(1) that have "c = CHR '','' \<or> isdigit c" by (rule bspec)
    then show ?thesis
    proof
      assume "c = CHR '',''"
      then show ?thesis by (simp only: comma_not_space not_False_eq_True)
    next
      assume "isdigit c"
      then show ?thesis by (rule isdigit_not_space)
    qed
  qed
  then have st: "strip s = s" by (intro strip_no_space) blast
  have "s \<noteq> []" using assms(2) by (auto simp: remove_commas_def)
  moreover have "\<forall>c \<in> set (remove_commas s). isdigit c"
    using assms(1) by (auto simp: remove_commas_def)
  then have "ID_PATTERN_INT_OR_FLOAT_match (remove_commas s) = Some (remove_commas s)"
    using assms(2) by (intro match_digits) simp_all
  ultimately show ?thesis using st by (simp add: normalize_id_def)
qed

lemma py_int_short: "length ds \<le> int_max_str_digits \<Longrightarrow> py_int ds = Inr (int_of_digits ds)"
  by (simp add: py_int_def)

lemma py_int_long:
  "int_max_str_digits < length ds \<Longrightarrow>
   py_int ds = Inl (ValueError ''Exceeds the limit (4300 digits) for integer string conversion'')"
  by (simp add: py_int_def)

lemma isdigit_not_comma: "isdigit c \<Longrightarrow> c \<noteq> CHR '',''"
  by (auto simp: isdigit_def)

text \<open>A string of more digits than \<open>int\<close> accepts makes the normalizer raise.\<close>

lemma normalize_id_long_digits:
  assumes "\<forall>c \<in> set ds. isdigit c" "int_max_str_digits < length ds"
  shows "normalize_id pf (PStr ds)
           = Inl (ValueError ''Exceeds the limit (4300 digits) for integer string conversion'')"
proof -
  have r: "remove_commas ds = ds"
    unfolding remove_commas_def using assms(1) isdigit_not_comma by (intro filter_True) blast
  have "ds \<noteq> []" using assms(2) by auto
  then have "remove_commas ds \<noteq> []" using r by simp
  moreover have "\<forall>c \<in> set ds. c = CHR '','' \<or> isdigit c" using assms(1) by blast
  ultimately have "normalize_id pf (PStr ds)
           = (case py_int (remove_commas ds) of Inl e \<Rightarrow> Inl e | Inr n \<Rightarrow> Inr (Some n))"
    by (intro digits_and_commas)
  then show ?thesis using r py_int_long [OF assms(2)] by simp
qed

text \<open>
  C10. The normalizer deletes every comma of a string, wherever it stands, before it
  matches the pattern or parses: two strings that are the same once stripped and freed
  of their commas normalize alike, and a string made of digits and commas only, with at
  least one digit (and no more digits than \<open>int\<close> accepts), normalizes to the number
  its digits spell. So \<^verbatim>\<open>1,2\<close> gives 12 and
  \<^verbatim>\<open>12,34\<close> gives 1234, though neither is a number with thousands separators.
\<close>

theorem normalize_id_deletes_commas:
  "(strip s1 \<noteq> [] \<and> strip s2 \<noteq> [] \<and> remove_commas (strip s1) = remove_commas (strip s2)
      \<longrightarrow> normalize_id pf (PStr s1) = normalize_id pf (PStr s2))
   \<and> ((\<forall>c \<in> set s. c = CHR '','' \<or> isdigit c) \<and> remove_commas s \<noteq> []
        \<and> length (remove_commas s) \<le> int_max_str_digits
      \<longrightarrow> normalize_id pf (PStr s) = Inr (Some (int_of_digits (remove_commas s))))
   \<and> normalize_id pf (PStr ''1,2'') = Inr (Some 12)
   \<and> normalize_id pf (PStr ''12,34'') = Inr (Some 1234)"
proof -
  have "normalize_id pf (PStr ''1,2'') = Inr (Some 12)"
    by (simp add: normalize_id_def strip_def isspace_def remove_commas_def py_int_def
      int_max_str_digits_def
      ID_PATTERN_INT_OR_FLOAT_match_def isdigit_def int_of_digits_def digit_val_def)
  moreover have "normalize_id pf (PStr ''12,34'') = Inr (Some 1234)"
    by (simp add: normalize_id_def strip_def isspace_def remove_commas_def py_int_def
      int_max_str_digits_def
      ID_PATTERN_INT_OR_FLOAT_match_def isdigit_def int_of_digits_def digit_val_def)
  moreover have "(\<forall>c \<in> set s. c = CHR '','' \<or> isdigit c) \<and> remove_commas s \<noteq> []
        \<and> length (remove_commas s) \<le> int_max_str_digits
      \<longrightarrow> normalize_id pf (PStr s) = Inr (Some (int_of_digits (remove_commas s)))"
  proof (intro impI, elim conjE)
    assume h: "\<forall>c \<in> set s. c = CHR '','' \<or> isdigit c" "remove_commas s \<noteq> []"
      "length (remove_commas s) \<le> int_max_str_digits"
    from digits_and_commas [OF h(1) h(2), of pf] py_int_short [OF h(3)]
    show "normalize_id pf (PStr s) = Inr (Some (int_of_digits (remove_commas s)))" by simp
  qed
  moreover have "strip s1 \<noteq> [] \<and> strip s2 \<noteq> []
      \<and> remove_commas (strip s1) = remove_commas (strip s2)
      \<longrightarrow> normalize_id pf (PStr s1) = normalize_id pf (PStr s2)"
    by (simp add: normalize_id_def Let_def)
  ultimately show ?thesis by (intro conjI)
qed

theorem normalize_id_deletes_commas_witness:
  "list_all (\<lambda>c. c = CHR '','' \<or> isdigit c) '',1,,2,'' \<and> remove_commas '',1,,2,'' = ''12''
   \<and> length (remove_commas '',1,,2,'') \<le> int_max_str_digits
   \<and> normalize_id Map.empty (PStr '',1,,2,'') = Inr (Some 12)
   \<and> remove_commas (strip '' 1,2'') = remove_commas (strip ''12,  '')
   \<and> normalize_id Map.empty (PStr '' 1,2'') = normalize_id Map.empty (PStr ''12,  '')"
proof -
  note t = normalize_id_deletes_commas [where pf = Map.empty and s = "'',1,,2,''"
      and ?s1.0 = "'' 1,2''" and ?s2.0 = "''12,  ''"]
  have a': "list_all (\<lambda>c. c = CHR '','' \<or> isdigit c) '',1,,2,''" by (simp add: isdigit_def)
  then have a: "\<forall>c \<in> set '',1,,2,''. c = CHR '','' \<or> isdigit c" by (simp only: list_all_iff)
  have b: "remove_commas '',1,,2,'' = ''12''" by (simp add: remove_commas_def)
  have c: "int_of_digits ''12'' = 12" by (simp add: int_of_digits_def digit_val_def)
  have nz: "remove_commas '',1,,2,'' \<noteq> []" by (simp add: remove_commas_def)
  have ln: "length (remove_commas '',1,,2,'') \<le> int_max_str_digits"
    by (simp add: remove_commas_def int_max_str_digits_def)
  have d: "normalize_id Map.empty (PStr '',1,,2,'')
             = Inr (Some (int_of_digits (remove_commas '',1,,2,'')))"
    by (rule t [THEN conjunct2, THEN conjunct1, THEN mp, OF conjI [OF a conjI [OF nz ln]]])
  have e1: "strip '' 1,2'' \<noteq> []" by (simp add: strip_def isspace_def)
  have e2: "strip ''12,  '' \<noteq> []" by (simp add: strip_def isspace_def)
  have e3: "remove_commas (strip '' 1,2'') = remove_commas (strip ''12,  '')"
    by (simp add: strip_def isspace_def remove_commas_def)
  have "normalize_id Map.empty (PStr '' 1,2'') = normalize_id Map.empty (PStr ''12,  '')"
    by (rule t [THEN conjunct1, THEN mp, OF conjI [OF e1 conjI [OF e2 e3]]])
  with a' b c d e3 ln show ?thesis by (simp only: simp_thms)
qed

lemma digit_val_nonneg: "isdigit c \<Longrightarrow> 0 \<le> digit_val c"
  by (auto simp: isdigit_def digit_val_def)

lemma foldl_digits_nonneg:
  "\<forall>c \<in> set ds. isdigit c \<Longrightarrow> 0 \<le> acc
     \<Longrightarrow> 0 \<le> foldl (\<lambda>acc c. 10 * acc + digit_val c) acc ds"
proof (induction ds arbitrary: acc)
  case Nil
  then show ?case by simp
next
  case (Cons c ds)
  have "0 \<le> 10 * acc + digit_val c" using Cons.prems digit_val_nonneg [of c] by simp
  then show ?case using Cons by simp
qed

lemma match_group_digits:
  "ID_PATTERN_INT_OR_FLOAT_match s = Some g \<Longrightarrow> g \<noteq> [] \<and> (\<forall>c \<in> set g. isdigit c)"
  by (auto simp: ID_PATTERN_INT_OR_FLOAT_match_def Let_def split: if_splits dest: set_takeWhileD)

lemma match_nonneg: "ID_PATTERN_INT_OR_FLOAT_match s = Some g \<Longrightarrow> 0 \<le> int_of_digits g"
  using match_group_digits [of s g] foldl_digits_nonneg [of g 0] by (simp add: int_of_digits_def)

lemma int_of_float_of_int: "int_of_float (Finite (of_int n)) = n"
  by (simp add: int_of_float_def)

lemma is_integer_of_int: "is_integer (Finite (of_int n))"
  by (simp add: is_integer_def)

lemma is_integer_D:
  assumes "is_integer f"
  shows "f = Finite (of_int (int_of_float f))"
proof (cases f)
  case (Finite q)
  with assms have "of_int \<lfloor>q\<rfloor> = q" by (simp add: is_integer_def)
  then obtain n :: int where "q = of_int n" by metis
  with Finite show ?thesis by (simp add: int_of_float_def)
qed (use assms in \<open>simp_all add: is_integer_def\<close>)

lemma normalize_id_match:
  assumes m: "ID_PATTERN_INT_OR_FLOAT_match (remove_commas (strip s)) = Some g"
  shows "normalize_id pf (PStr s)
           = (case py_int g of Inl e \<Rightarrow> Inl e | Inr n \<Rightarrow> Inr (Some n))"
proof -
  have "strip s \<noteq> []"
  proof
    assume "strip s = []"
    then have "ID_PATTERN_INT_OR_FLOAT_match (remove_commas (strip s)) = None"
      by (simp add: remove_commas_def ID_PATTERN_INT_OR_FLOAT_match_def)
    with m show False by simp
  qed
  then show ?thesis using m by (simp add: normalize_id_def)
qed

lemma normalize_id_match_short:
  assumes m: "ID_PATTERN_INT_OR_FLOAT_match (remove_commas (strip s)) = Some g"
    and l: "length g \<le> int_max_str_digits"
  shows "normalize_id pf (PStr s) = Inr (Some (int_of_digits g)) \<and> 0 \<le> int_of_digits g"
  using normalize_id_match [OF m, of pf] py_int_short [OF l] match_nonneg [OF m] by simp

lemma normalize_id_match_nonneg:
  assumes m: "ID_PATTERN_INT_OR_FLOAT_match (remove_commas (strip s)) = Some g"
    and r: "normalize_id pf (PStr s) = Inr (Some n)"
  shows "0 \<le> n"
proof -
  from normalize_id_match [OF m, of pf] r have "py_int g = Inr n"
    by (cases "py_int g") simp_all
  then have "n = int_of_digits g" by (auto simp: py_int_def split: if_splits)
  then show ?thesis using match_nonneg [OF m] by simp
qed

text \<open>
  C5, as amended. On every value but a string with more digits than \<open>int\<close> accepts, the
  normalizer returns no identifier or an integer, which may be negative: an \<open>int\<close> is
  returned as it is and an integral \<open>float\<close> as its value, whatever the sign; no
  identifier for \<open>None\<close> and NaN. A string that matches the digit pattern, with no more
  digits than that, gives a non-negative integer. A negative result comes from a negative
  \<open>int\<close>, a negative integral \<open>float\<close>, or a string that fails the pattern and that
  \<open>float\<close> parses as a negative integral value.
\<close>

theorem normalize_id_range:
  "normalize_id pf PNone = Inr None
   \<and> normalize_id pf (PFloat NaN) = Inr None
   \<and> normalize_id pf (PInt n) = Inr (Some n)
   \<and> normalize_id pf (PFloat (Finite (of_int n))) = Inr (Some n)
   \<and> (ID_PATTERN_INT_OR_FLOAT_match (remove_commas (strip s)) = Some g
        \<and> length g \<le> int_max_str_digits
        \<longrightarrow> normalize_id pf (PStr s) = Inr (Some (int_of_digits g)) \<and> 0 \<le> int_of_digits g)
   \<and> (normalize_id pf v = Inr (Some m) \<and> m < 0
        \<longrightarrow> v = PInt m \<or> v = PFloat (Finite (of_int m))
          \<or> (\<exists>str. v = PStr str
                \<and> ID_PATTERN_INT_OR_FLOAT_match (remove_commas (strip str)) = None
                \<and> pf (remove_commas (strip str)) = Some (Finite (of_int m))))
   \<and> ((\<forall>str ds. v = PStr str
            \<and> ID_PATTERN_INT_OR_FLOAT_match (remove_commas (strip str)) = Some ds
            \<longrightarrow> length ds \<le> int_max_str_digits)
        \<longrightarrow> (\<exists>r. normalize_id pf v = Inr r))"
proof -
  have a: "normalize_id pf (PFloat (Finite (of_int n))) = Inr (Some n)"
    by (simp add: normalize_id_def isnan_def is_integer_of_int int_of_float_of_int)
  have b: "ID_PATTERN_INT_OR_FLOAT_match (remove_commas (strip s)) = Some g
       \<Longrightarrow> length g \<le> int_max_str_digits
       \<Longrightarrow> normalize_id pf (PStr s) = Inr (Some (int_of_digits g)) \<and> 0 \<le> int_of_digits g"
    by (rule normalize_id_match_short)
  have c: "v = PInt m \<or> v = PFloat (Finite (of_int m))
          \<or> (\<exists>str. v = PStr str
                \<and> ID_PATTERN_INT_OR_FLOAT_match (remove_commas (strip str)) = None
                \<and> pf (remove_commas (strip str)) = Some (Finite (of_int m)))"
    if r: "normalize_id pf v = Inr (Some m)" and neg: "m < 0"
  proof (cases v)
    case PNone
    with r show ?thesis by (simp add: normalize_id_def)
  next
    case (PInt i)
    with r show ?thesis by (simp add: normalize_id_def)
  next
    case (PFloat f)
    with r have "is_integer f" "int_of_float f = m"
      by (auto simp: normalize_id_def split: if_splits)
    with is_integer_D [of f] PFloat show ?thesis by simp
  next
    case (PStr str)
    show ?thesis
    proof (cases "ID_PATTERN_INT_OR_FLOAT_match (remove_commas (strip str))")
      case None
      with r PStr obtain f where "pf (remove_commas (strip str)) = Some f" "is_integer f" "int_of_float f = m"
        by (auto simp: normalize_id_def Let_def split: if_splits option.splits)
      with is_integer_D [of f] None PStr show ?thesis by simp
    next
      case (Some ds)
      from normalize_id_match_nonneg [OF Some, of pf m] r PStr neg show ?thesis by simp
    qed
  qed
  have d: "\<exists>r. normalize_id pf v = Inr r"
    if h: "\<forall>str ds. v = PStr str
            \<and> ID_PATTERN_INT_OR_FLOAT_match (remove_commas (strip str)) = Some ds
            \<longrightarrow> length ds \<le> int_max_str_digits"
  proof (cases v)
    case PNone
    then show ?thesis by (simp add: normalize_id_def)
  next
    case (PInt i)
    then show ?thesis by (simp add: normalize_id_def)
  next
    case (PFloat f)
    then show ?thesis by (simp add: normalize_id_def)
  next
    case (PStr str)
    show ?thesis
    proof (cases "ID_PATTERN_INT_OR_FLOAT_match (remove_commas (strip str))")
      case None
      then show ?thesis using PStr
        by (simp add: normalize_id_def Let_def split: option.splits)
    next
      case (Some ds)
      with h PStr have "length ds \<le> int_max_str_digits" by blast
      from normalize_id_match_short [OF Some this, of pf] PStr show ?thesis by simp
    qed
  qed
  have n1: "normalize_id pf PNone = Inr None" by (simp add: normalize_id_def)
  have n2: "normalize_id pf (PFloat NaN) = Inr None" by (simp add: normalize_id_def isnan_def)
  have n3: "normalize_id pf (PInt n) = Inr (Some n)" by (simp add: normalize_id_def)
  show ?thesis using n1 n2 n3 a b c d by blast
qed

text \<open>
  C5 as stated fails: the integer \<open>-5\<close> normalizes to the negative identifier \<open>-5\<close>.
\<close>

theorem normalize_id_negative_counterexample:
  "normalize_id Map.empty (PInt (- 5)) = Inr (Some (- 5)) \<and> (- 5 :: int) < 0"
  by (simp add: normalize_id_def)

theorem normalize_id_range_witness:
  "normalize_id [''-5'' \<mapsto> Finite (- 5)] (PStr ''-5'') = Inr (Some (- 5))
   \<and> (- 5 :: int) < 0
   \<and> (\<exists>str. PStr ''-5'' = PStr str
         \<and> ID_PATTERN_INT_OR_FLOAT_match (remove_commas (strip str)) = None
         \<and> [''-5'' \<mapsto> Finite (- 5)] (remove_commas (strip str)) = Some (Finite (of_int (- 5))))
   \<and> ID_PATTERN_INT_OR_FLOAT_match (remove_commas (strip '' 7.00 '')) = Some ''7''
   \<and> length ''7'' \<le> int_max_str_digits
   \<and> normalize_id [''-5'' \<mapsto> Finite (- 5)] (PStr '' 7.00 '') = Inr (Some 7)
   \<and> ID_PATTERN_INT_OR_FLOAT_match (remove_commas (strip ''-5'')) = None
   \<and> (\<exists>r. normalize_id [''-5'' \<mapsto> Finite (- 5)] (PStr ''-5'') = Inr r)"
proof -
  let ?pf = "[''-5'' \<mapsto> Finite (- 5)]"
  note t = normalize_id_range [of ?pf 0 "'' 7.00 ''" "''7''" "PStr ''-5''" "- 5"]
  have a: "normalize_id ?pf (PStr ''-5'') = Inr (Some (- 5))"
    by (simp add: normalize_id_def strip_def isspace_def remove_commas_def
      ID_PATTERN_INT_OR_FLOAT_match_def isdigit_def is_integer_def int_of_float_def)
  have b: "ID_PATTERN_INT_OR_FLOAT_match (remove_commas (strip '' 7.00 '')) = Some ''7''"
    by (simp add: strip_def isspace_def remove_commas_def
      ID_PATTERN_INT_OR_FLOAT_match_def isdigit_def)
  have b': "length ''7'' \<le> int_max_str_digits" by (simp add: int_max_str_digits_def)
  have c: "int_of_digits ''7'' = 7" by (simp add: int_of_digits_def digit_val_def)
  have d: "ID_PATTERN_INT_OR_FLOAT_match (remove_commas (strip ''-5'')) = None"
    by (simp add: strip_def isspace_def remove_commas_def
      ID_PATTERN_INT_OR_FLOAT_match_def isdigit_def)
  have e: "(- 5 :: int) < 0" by simp
  have f: "normalize_id ?pf (PStr '' 7.00 '') = Inr (Some (int_of_digits ''7''))"
    by (rule t [THEN conjunct2, THEN conjunct2, THEN conjunct2, THEN conjunct2, THEN conjunct1,
          THEN mp, OF conjI [OF b b'], THEN conjunct1])
  have "PStr ''-5'' = PInt (- 5) \<or> PStr ''-5'' = PFloat (Finite (of_int (- 5)))
     \<or> (\<exists>str. PStr ''-5'' = PStr str
         \<and> ID_PATTERN_INT_OR_FLOAT_match (remove_commas (strip str)) = None
         \<and> ?pf (remove_commas (strip str)) = Some (Finite (of_int (- 5))))"
    by (rule t [THEN conjunct2, THEN conjunct2, THEN conjunct2, THEN conjunct2, THEN conjunct2,
          THEN conjunct1, THEN mp, OF conjI [OF a e]])
  then have g: "\<exists>str. PStr ''-5'' = PStr str
         \<and> ID_PATTERN_INT_OR_FLOAT_match (remove_commas (strip str)) = None
         \<and> ?pf (remove_commas (strip str)) = Some (Finite (of_int (- 5)))"
    by (simp only: pyval.distinct simp_thms)
  have h: "\<forall>str ds. PStr ''-5'' = PStr str
            \<and> ID_PATTERN_INT_OR_FLOAT_match (remove_commas (strip str)) = Some ds
            \<longrightarrow> length ds \<le> int_max_str_digits"
  proof (intro allI impI, elim conjE)
    fix str ds
    assume "PStr ''-5'' = PStr str"
      "ID_PATTERN_INT_OR_FLOAT_match (remove_commas (strip str)) = Some ds"
    then have "ID_PATTERN_INT_OR_FLOAT_match (remove_commas (strip ''-5'')) = Some ds"
      by (simp only: pyval.inject)
    with d show "length ds \<le> int_max_str_digits" by (simp only: option.distinct)
  qed
  have i: "\<exists>r. normalize_id ?pf (PStr ''-5'') = Inr r"
    by (rule t [THEN conjunct2, THEN conjunct2, THEN conjunct2, THEN conjunct2, THEN conjunct2,
          THEN conjunct2, THEN mp, OF h])
  from a e g b b' f c d i show ?thesis by (simp only: simp_thms)
qed

section \<open>Properties of the driver\<close>

lemma load_reviewer_ids_uniq_distinct:
  "distinct uniq \<Longrightarrow> distinct (load_reviewer_ids_uniq ids (set uniq) uniq)"
proof (induction ids arbitrary: uniq)
  case Nil
  then show ?case by simp
next
  case (Cons rid ids)
  show ?case
  proof (cases "rid \<in> set uniq")
    case True
    then show ?thesis using Cons by simp
  next
    case False
    then have "distinct (uniq @ [rid])" using Cons.prems by simp
    from Cons.IH [OF this] False show ?thesis by simp
  qed
qed

lemma load_reviewer_ids_distinct: "load_reviewer_ids pf reader = Inr ids \<Longrightarrow> distinct ids"
  using load_reviewer_ids_uniq_distinct [of "[]"]
  by (auto simp: load_reviewer_ids_def split: sum.splits)

lemma shuffle_distinct: "distinct x \<Longrightarrow> distinct (fst (shuffle x g))"
  using shuffle_mset [of x g] by (metis mset_eq_imp_distinct_iff)

lemma loads_get_upd:
  "loads_get (l(rid \<mapsto> c)) r = (if r = rid then c else loads_get l r)"
  by (simp add: loads_get_def)

lemma update_loads_count:
  "loads_get (update_loads picks lds) r = loads_get lds r + int (count_list picks r)"
  unfolding update_loads_def
  by (induction picks arbitrary: lds) (simp_all add: loads_get_upd)

lemma count_list_distinct: "distinct xs \<Longrightarrow> count_list xs r = (if r \<in> set xs then 1 else 0)"
  by (induction xs) auto

lemma count_list_map_PInt: "count_list (map PInt picks) (PInt r) = count_list picks r"
  by (induction picks) auto

lemma count_list_replicate_PStr: "count_list (replicate n (PStr s)) (PInt r) = 0"
  by (simp add: count_list_0_iff)

lemma assigned_slots:
  "length picks \<le> n \<Longrightarrow>
   map (\<lambda>i. if i < length picks then PInt (picks ! i) else PStr []) [0 ..< n]
     = map PInt picks @ replicate (n - length picks) (PStr [])"
  by (rule nth_equalityI) (auto simp: nth_append)

lemma record_picks_conflict:
  "set picks \<inter> excluded \<noteq> {} \<Longrightarrow>
   record_picks st app_id excluded eligible picks lds g
     = Inl (RuntimeError app_id (set picks \<inter> excluded))"
  by (simp add: record_picks_def Let_def)

text \<open>An exception in the exclusion columns of a row ends the loop body.\<close>

lemma process_row_raises:
  "build_exclusion_set pf row cols = Inl e \<Longrightarrow> process_row pf cols global_reviewers st row = Inl e"
  by (simp add: process_row_def)

text \<open>
  What one pass through the loop body does, when the pool has no repetitions and the
  exclusion set of the row has been built.
\<close>

lemma process_row_result:
  assumes "distinct global_reviewers" and ex: "build_exclusion_set pf row cols = Inr excluded"
  shows "\<exists>picks g'.
      choose_reviewers_with_minmax
          (filter (\<lambda>rid. rid \<notin> excluded) global_reviewers)
          ASSIGNMENTS_PER_APPLICATION (loads st)
          (Some MIN_ASSIGNMENTS_PER_REVIEWER) (Some MAX_ASSIGNMENTS_PER_REVIEWER) (rng_state st)
        = Inr (picks, loads st, g')
    \<and> length picks \<le> 3 \<and> distinct picks \<and> set picks \<subseteq> set global_reviewers
    \<and> set picks \<inter> excluded = {}
    \<and> (\<forall>rid \<in> set picks. loads_get (loads st) rid < MAX_ASSIGNMENTS_PER_REVIEWER)
    \<and> process_row pf cols global_reviewers st row
        = Inr \<lparr>loads = update_loads picks (loads st),
               output_rows = output_rows st @
                 [\<lparr>application_id = row_get row ''Application ID'',
                   assigned_reviewers = map PInt picks @ replicate (3 - length picks) (PStr []),
                   excluded_count = card excluded,
                   eligible_pool_size =
                     length (filter (\<lambda>rid. rid \<notin> excluded) global_reviewers),
                   used_fallback = (length picks < 3)\<rparr>],
               warnings =
                 (if length picks < 3
                  then warnings st @
                    [\<lparr>warned_application = row_get row ''Application ID'',
                      found_reviewers = length picks, needed_reviewers = 3\<rparr>]
                  else warnings st),
               rng_state = g'\<rparr>"
proof -
  let ?el = "filter (\<lambda>rid. rid \<notin> excluded) global_reviewers"
  have d: "distinct ?el" using assms by simp
  have k: "0 \<le> ASSIGNMENTS_PER_APPLICATION" by (simp add: ASSIGNMENTS_PER_APPLICATION_def)
  let ?pool = "capped_pool ?el (loads st) (Some MAX_ASSIGNMENTS_PER_REVIEWER)"
  from choose_picks [OF k, of ?el "loads st" "Some MIN_ASSIGNMENTS_PER_REVIEWER"
      "Some MAX_ASSIGNMENTS_PER_REVIEWER" "rng_state st"]
  obtain picks g' where
    c: "choose_reviewers_with_minmax ?el ASSIGNMENTS_PER_APPLICATION (loads st)
          (Some MIN_ASSIGNMENTS_PER_REVIEWER) (Some MAX_ASSIGNMENTS_PER_REVIEWER) (rng_state st)
        = Inr (picks, loads st, g')"
    and l: "length picks \<le> nat ASSIGNMENTS_PER_APPLICATION"
    and m: "mset picks \<subseteq># mset ?pool"
    by blast
  have dp: "distinct picks"
    using m capped_pool_distinct [OF d] by (rule distinct_mset_subseteq)
  have sp: "set picks \<subseteq> set ?pool" using m by (metis set_mset_mono set_mset_mset)
  then have sub: "set picks \<subseteq> set ?el" using capped_pool_subset by blast
  have cap: "\<forall>rid \<in> set picks. loads_get (loads st) rid < MAX_ASSIGNMENTS_PER_REVIEWER"
    using sp capped_pool_under_cap by blast
  have l3: "length picks \<le> 3" using l by (simp add: ASSIGNMENTS_PER_APPLICATION_def)
  have dis: "set picks \<inter> excluded = {}" using sub by auto
  have "process_row pf cols global_reviewers st row
          = record_picks st (row_get row ''Application ID'') excluded ?el picks (loads st) g'"
    using c ex by (simp add: process_row_def Let_def)
  also have "\<dots> = Inr \<lparr>loads = update_loads picks (loads st),
               output_rows = output_rows st @
                 [\<lparr>application_id = row_get row ''Application ID'',
                   assigned_reviewers = map PInt picks @ replicate (3 - length picks) (PStr []),
                   excluded_count = card excluded,
                   eligible_pool_size = length ?el,
                   used_fallback = (length picks < 3)\<rparr>],
               warnings =
                 (if length picks < 3
                  then warnings st @
                    [\<lparr>warned_application = row_get row ''Application ID'',
                      found_reviewers = length picks, needed_reviewers = 3\<rparr>]
                  else warnings st),
               rng_state = g'\<rparr>"
    using dis assigned_slots [OF l3]
    by (simp add: record_picks_def ASSIGNMENTS_PER_APPLICATION_def)
  finally have pr: "process_row pf cols global_reviewers st row = \<dots>" .
  have "set picks \<subseteq> set global_reviewers" using sub by auto
  then show ?thesis using c l3 dp dis pr cap by blast
qed

lemma process_row_succeeds:
  assumes "distinct gr" and ex: "build_exclusion_set pf row cols = Inr excluded"
  shows "\<exists>st1. process_row pf cols gr st row = Inr st1"
  using process_row_result [OF assms, of st] by blast

text \<open>The same for a pass that is known to have returned.\<close>

lemma process_row_step:
  assumes "distinct gr" and p: "process_row pf cols gr st row = Inr st1"
  shows "\<exists>picks out excluded.
      build_exclusion_set pf row cols = Inr excluded
    \<and> loads st1 = update_loads picks (loads st)
    \<and> output_rows st1 = output_rows st @ [out]
    \<and> set (warnings st) \<subseteq> set (warnings st1)
    \<and> (length picks < 3 \<longrightarrow>
          \<lparr>warned_application = row_get row ''Application ID'',
           found_reviewers = length picks, needed_reviewers = 3\<rparr> \<in> set (warnings st1))
    \<and> length picks \<le> 3 \<and> distinct picks
    \<and> set picks \<inter> excluded = {}
    \<and> (\<forall>rid \<in> set picks. loads_get (loads st) rid < MAX_ASSIGNMENTS_PER_REVIEWER)
    \<and> application_id out = row_get row ''Application ID''
    \<and> assigned_reviewers out = map PInt picks @ replicate (3 - length picks) (PStr [])
    \<and> used_fallback out = (length picks < 3)"
proof -
  obtain excluded where ex: "build_exclusion_set pf row cols = Inr excluded"
    using p by (cases "build_exclusion_set pf row cols") (simp_all add: process_row_def)
  from process_row_result [OF assms(1) ex, of st]
  obtain picks g' where
    a: "length picks \<le> 3" "distinct picks" "set picks \<inter> excluded = {}"
       "\<forall>rid \<in> set picks. loads_get (loads st) rid < MAX_ASSIGNMENTS_PER_REVIEWER"
    and q: "process_row pf cols gr st row
        = Inr \<lparr>loads = update_loads picks (loads st),
               output_rows = output_rows st @
                 [\<lparr>application_id = row_get row ''Application ID'',
                   assigned_reviewers = map PInt picks @ replicate (3 - length picks) (PStr []),
                   excluded_count = card excluded,
                   eligible_pool_size =
                     length (filter (\<lambda>rid. rid \<notin> excluded) gr),
                   used_fallback = (length picks < 3)\<rparr>],
               warnings =
                 (if length picks < 3
                  then warnings st @
                    [\<lparr>warned_application = row_get row ''Application ID'',
                      found_reviewers = length picks, needed_reviewers = 3\<rparr>]
                  else warnings st),
               rng_state = g'\<rparr>" by blast
  from p q have s: "st1 = \<lparr>loads = update_loads picks (loads st),
               output_rows = output_rows st @
                 [\<lparr>application_id = row_get row ''Application ID'',
                   assigned_reviewers = map PInt picks @ replicate (3 - length picks) (PStr []),
                   excluded_count = card excluded,
                   eligible_pool_size =
                     length (filter (\<lambda>rid. rid \<notin> excluded) gr),
                   used_fallback = (length picks < 3)\<rparr>],
               warnings =
                 (if length picks < 3
                  then warnings st @
                    [\<lparr>warned_application = row_get row ''Application ID'',
                      found_reviewers = length picks, needed_reviewers = 3\<rparr>]
                  else warnings st),
               rng_state = g'\<rparr>" by simp
  show ?thesis
    apply (rule exI [of _ picks])
    apply (subst s)+
    apply (intro exI conjI)
               apply (rule ex)
    using a by auto
qed

lemma main_loop_append:
  "main_loop pf cols gr st (xs @ ys)
     = (case main_loop pf cols gr st xs of Inl e \<Rightarrow> Inl e | Inr st1 \<Rightarrow> main_loop pf cols gr st1 ys)"
  by (induction xs arbitrary: st) (auto split: sum.splits)

lemma main_loop_Cons_D:
  "main_loop pf cols gr st (row # rest) = Inr st'
     \<Longrightarrow> \<exists>st1. process_row pf cols gr st row = Inr st1 \<and> main_loop pf cols gr st1 rest = Inr st'"
  by (cases "process_row pf cols gr st row") simp_all

lemma main_loop_warnings_mono:
  assumes "distinct gr"
  shows "main_loop pf cols gr st rws = Inr st' \<Longrightarrow> set (warnings st) \<subseteq> set (warnings st')"
proof (induction rws arbitrary: st)
  case Nil
  then show ?case by simp
next
  case (Cons row rest)
  from main_loop_Cons_D [OF Cons.prems] obtain st1 where
    p: "process_row pf cols gr st row = Inr st1" and m: "main_loop pf cols gr st1 rest = Inr st'"
    by blast
  from process_row_step [OF assms p] have "set (warnings st) \<subseteq> set (warnings st1)" by blast
  with Cons.IH [OF m] show ?case by blast
qed

lemma main_loop_loads_bound:
  assumes "distinct gr"
  shows "main_loop pf cols gr st rws = Inr st'
     \<Longrightarrow> \<forall>r. loads_get (loads st) r \<le> MAX_ASSIGNMENTS_PER_REVIEWER
     \<Longrightarrow> loads_get (loads st') r \<le> MAX_ASSIGNMENTS_PER_REVIEWER"
proof (induction rws arbitrary: st)
  case Nil
  then show ?case by simp
next
  case (Cons row rest)
  from main_loop_Cons_D [OF Cons.prems(1)] obtain st1 where
    p: "process_row pf cols gr st row = Inr st1" and m: "main_loop pf cols gr st1 rest = Inr st'"
    by blast
  from process_row_step [OF assms p]
  obtain picks where l: "loads st1 = update_loads picks (loads st)"
    and d: "distinct picks"
    and c: "\<forall>rid \<in> set picks. loads_get (loads st) rid < MAX_ASSIGNMENTS_PER_REVIEWER"
    by blast
  have "loads_get (loads st1) q \<le> MAX_ASSIGNMENTS_PER_REVIEWER" for q
  proof (cases "q \<in> set picks")
    case True
    with c have "loads_get (loads st) q < MAX_ASSIGNMENTS_PER_REVIEWER" by blast
    then show ?thesis using True d l by (simp add: update_loads_count count_list_distinct)
  next
    case False
    then show ?thesis using Cons.prems(2) d l by (simp add: update_loads_count count_list_distinct)
  qed
  then show ?case using Cons.IH [OF m] by blast
qed

lemma main_loop_loads_count:
  assumes "distinct gr"
  shows "main_loop pf cols gr st rws = Inr st'
     \<Longrightarrow> \<exists>outs. output_rows st' = output_rows st @ outs
           \<and> loads_get (loads st') r = loads_get (loads st) r
               + (\<Sum>out\<leftarrow>outs. int (count_list (assigned_reviewers out) (PInt r)))"
proof (induction rws arbitrary: st)
  case Nil
  then show ?case by simp
next
  case (Cons row rest)
  from main_loop_Cons_D [OF Cons.prems] obtain st1 where
    p: "process_row pf cols gr st row = Inr st1" and m: "main_loop pf cols gr st1 rest = Inr st'"
    by blast
  from process_row_step [OF assms p]
  obtain picks out where l: "loads st1 = update_loads picks (loads st)"
    and o: "output_rows st1 = output_rows st @ [out]"
    and a: "assigned_reviewers out = map PInt picks @ replicate (3 - length picks) (PStr [])"
    by blast
  from Cons.IH [OF m] obtain outs where
    "output_rows st' = output_rows st1 @ outs"
    "loads_get (loads st') r = loads_get (loads st1) r
               + (\<Sum>out\<leftarrow>outs. int (count_list (assigned_reviewers out) (PInt r)))" by blast
  then have "output_rows st' = output_rows st @ (out # outs)"
    "loads_get (loads st') r = loads_get (loads st) r
               + (\<Sum>out\<leftarrow>out # outs. int (count_list (assigned_reviewers out) (PInt r)))"
    using l o a
    by (simp_all add: update_loads_count count_list_map_PInt count_list_replicate_PStr)
  then show ?case by blast
qed

lemma main_loop_outputs:
  assumes "distinct gr"
  shows "main_loop pf cols gr st rws = Inr st'
     \<Longrightarrow> \<exists>outs. output_rows st' = output_rows st @ outs \<and> length outs = length rws
         \<and> (\<forall>i < length rws. \<exists>picks excluded.
               build_exclusion_set pf (rws ! i) cols = Inr excluded
             \<and> length picks \<le> 3
             \<and> set picks \<inter> excluded = {}
             \<and> application_id (outs ! i) = row_get (rws ! i) ''Application ID''
             \<and> assigned_reviewers (outs ! i)
                 = map PInt picks @ replicate (3 - length picks) (PStr [])
             \<and> used_fallback (outs ! i) = (length picks < 3)
             \<and> (length picks < 3 \<longrightarrow>
                  \<lparr>warned_application = row_get (rws ! i) ''Application ID'',
                   found_reviewers = length picks, needed_reviewers = 3\<rparr> \<in> set (warnings st')))"
proof (induction rws arbitrary: st)
  case Nil
  then show ?case by simp
next
  case (Cons row rest)
  let ?P = "\<lambda>rw out picks excluded.
               build_exclusion_set pf rw cols = Inr excluded
             \<and> length picks \<le> 3
             \<and> set picks \<inter> excluded = {}
             \<and> application_id out = row_get rw ''Application ID''
             \<and> assigned_reviewers out
                 = map PInt picks @ replicate (3 - length picks) (PStr [])
             \<and> used_fallback out = (length picks < 3)
             \<and> (length picks < 3 \<longrightarrow>
                  \<lparr>warned_application = row_get rw ''Application ID'',
                   found_reviewers = length picks, needed_reviewers = 3\<rparr> \<in> set (warnings st'))"
  from main_loop_Cons_D [OF Cons.prems] obtain st1 where
    p: "process_row pf cols gr st row = Inr st1" and m: "main_loop pf cols gr st1 rest = Inr st'"
    by blast
  from process_row_step [OF assms p]
  obtain picks out excluded where
    o: "output_rows st1 = output_rows st @ [out]"
    and q: "build_exclusion_set pf row cols = Inr excluded"
      "length picks \<le> 3" "set picks \<inter> excluded = {}"
      "application_id out = row_get row ''Application ID''"
      "assigned_reviewers out = map PInt picks @ replicate (3 - length picks) (PStr [])"
      "used_fallback out = (length picks < 3)"
    and w: "length picks < 3 \<longrightarrow>
              \<lparr>warned_application = row_get row ''Application ID'',
               found_reviewers = length picks, needed_reviewers = 3\<rparr> \<in> set (warnings st1)"
    by blast
  from main_loop_warnings_mono [OF assms m] w q have h: "?P row out picks excluded" by blast
  from Cons.IH [OF m] obtain outs where
    oo: "output_rows st' = output_rows st1 @ outs" "length outs = length rest"
    and r: "\<forall>i < length rest. \<exists>picks excluded. ?P (rest ! i) (outs ! i) picks excluded" by blast
  have "\<exists>picks excluded. ?P ((row # rest) ! i) ((out # outs) ! i) picks excluded"
    if "i < length (row # rest)" for i
  proof (cases i)
    case 0
    then show ?thesis using h by auto
  next
    case (Suc j)
    then show ?thesis using r that by simp
  qed
  moreover have "output_rows st' = output_rows st @ (out # outs)" using o oo by simp
  moreover have "length (out # outs) = length (row # rest)" using oo by simp
  ultimately show ?case by blast
qed

lemma initial_loads_zero: "loads_get (loads (initial_state gr g)) r = 0"
proof -
  have "loads_get (map_of (map (\<lambda>rid. (rid, 0)) xs)) r = 0" for xs :: "int list"
    by (induction xs) (simp_all add: loads_get_def)
  then show ?thesis by (simp add: initial_state_def)
qed

lemma global_reviewers_distinct:
  "load_reviewer_ids pf reader = Inr ids \<Longrightarrow> distinct (fst (shuffle ids g))"
  by (rule shuffle_distinct) (rule load_reviewer_ids_distinct)

lemma main_unfold:
  assumes "''Application ID'' \<in> set (columns df)" "load_reviewer_ids pf reader = Inr ids"
    "ids \<noteq> []"
  shows "main pf df reader g
     = main_loop pf (get_exclusion_cols df) (fst (shuffle ids g))
         (initial_state (fst (shuffle ids g)) (snd (shuffle ids g))) (rows df)"
  using assms by (simp add: main_def Let_def split: prod.splits)

lemma main_Inr_D:
  assumes "main pf df reader g = Inr st"
  shows "\<exists>ids. ''Application ID'' \<in> set (columns df) \<and> load_reviewer_ids pf reader = Inr ids
           \<and> ids \<noteq> []"
  using assms by (auto simp: main_def Let_def split: if_splits sum.splits)

text \<open>
  C1. In a run that completes there is one output row for every application, the
  exclusion set of every application has been built, and no reviewer assigned in a row
  belongs to the exclusion set of its application. The driver checks this itself after
  every selection: picks that meet the exclusion set end the run with a
  \<open>RuntimeError\<close>.
\<close>

theorem assigned_never_excluded:
  "(main pf df reader g = Inr st \<longrightarrow>
      length (output_rows st) = length (rows df)
    \<and> (\<forall>i < length (rows df). \<exists>excluded.
          build_exclusion_set pf (rows df ! i) (get_exclusion_cols df) = Inr excluded
        \<and> (\<forall>rid. PInt rid \<in> set (assigned_reviewers (output_rows st ! i))
                 \<longrightarrow> rid \<notin> excluded)))
   \<and> (set picks \<inter> excluded0 \<noteq> {} \<longrightarrow>
        record_picks st0 app_id excluded0 eligible picks lds g0
          = Inl (RuntimeError app_id (set picks \<inter> excluded0)))"
proof -
  have "length (output_rows st) = length (rows df)
    \<and> (\<forall>i < length (rows df). \<exists>excluded.
          build_exclusion_set pf (rows df ! i) (get_exclusion_cols df) = Inr excluded
        \<and> (\<forall>rid. PInt rid \<in> set (assigned_reviewers (output_rows st ! i))
                 \<longrightarrow> rid \<notin> excluded))"
    if m: "main pf df reader g = Inr st"
  proof -
    from main_Inr_D [OF m] obtain ids where
      ok: "''Application ID'' \<in> set (columns df)" "load_reviewer_ids pf reader = Inr ids"
        "ids \<noteq> []" by blast
    let ?gr = "fst (shuffle ids g)"
    let ?st0 = "initial_state ?gr (snd (shuffle ids g))"
    have u: "main pf df reader g = main_loop pf (get_exclusion_cols df) ?gr ?st0 (rows df)"
      using ok by (rule main_unfold)
    have d: "distinct ?gr" using ok(2) by (rule global_reviewers_distinct)
    from main_loop_outputs [OF d, of pf "get_exclusion_cols df" ?st0 "rows df" st] m u
    obtain outs where o: "output_rows st = output_rows ?st0 @ outs" "length outs = length (rows df)"
      and p: "\<forall>i < length (rows df). \<exists>picks excluded.
               build_exclusion_set pf (rows df ! i) (get_exclusion_cols df) = Inr excluded
             \<and> length picks \<le> 3
             \<and> set picks \<inter> excluded = {}
             \<and> application_id (outs ! i) = row_get (rows df ! i) ''Application ID''
             \<and> assigned_reviewers (outs ! i)
                 = map PInt picks @ replicate (3 - length picks) (PStr [])
             \<and> used_fallback (outs ! i) = (length picks < 3)
             \<and> (length picks < 3 \<longrightarrow>
                  \<lparr>warned_application = row_get (rows df ! i) ''Application ID'',
                   found_reviewers = length picks, needed_reviewers = 3\<rparr> \<in> set (warnings st))"
      by auto
    have oo: "output_rows st = outs" using o by (simp add: initial_state_def)
    have "\<exists>excluded.
          build_exclusion_set pf (rows df ! i) (get_exclusion_cols df) = Inr excluded
        \<and> (\<forall>rid. PInt rid \<in> set (assigned_reviewers (output_rows st ! i))
                 \<longrightarrow> rid \<notin> excluded)"
      if "i < length (rows df)" for i
    proof -
      from p that obtain pk excluded where
        e: "build_exclusion_set pf (rows df ! i) (get_exclusion_cols df) = Inr excluded"
        and q: "set pk \<inter> excluded = {}"
        "assigned_reviewers (outs ! i) = map PInt pk @ replicate (3 - length pk) (PStr [])"
        by blast
      have "rid \<notin> excluded" if "PInt rid \<in> set (assigned_reviewers (output_rows st ! i))" for rid
      proof -
        from that q(2) oo have "rid \<in> set pk" by auto
        with q(1) show ?thesis by blast
      qed
      with e show ?thesis by blast
    qed
    then show ?thesis using oo o(2) by blast
  qed
  then show ?thesis using record_picks_conflict [of picks excluded0 st0 app_id eligible lds g0]
    by blast
qed

text \<open>
  C2. After every application of the run, which is the state reached by the run on the
  first \<open>n\<close> applications and from which the remaining ones lead to the final state,
  every entry of the load table is at most \<open>MAX_ASSIGNMENTS_PER_REVIEWER\<close>.
\<close>

theorem load_cap_invariant:
  assumes "main pf df reader g = Inr st_final"
  shows "\<exists>st ids. load_reviewer_ids pf reader = Inr ids
           \<and> main pf (df\<lparr>rows := take n (rows df)\<rparr>) reader g = Inr st
           \<and> (\<forall>r. loads_get (loads st) r \<le> MAX_ASSIGNMENTS_PER_REVIEWER)
           \<and> main_loop pf (get_exclusion_cols df) (fst (shuffle ids g)) st (drop n (rows df))
               = Inr st_final"
proof -
  from main_Inr_D [OF assms] obtain ids where
    ok: "''Application ID'' \<in> set (columns df)" "load_reviewer_ids pf reader = Inr ids"
      "ids \<noteq> []" by blast
  let ?gr = "fst (shuffle ids g)"
  let ?st0 = "initial_state ?gr (snd (shuffle ids g))"
  let ?cols = "get_exclusion_cols df"
  let ?df = "df\<lparr>rows := take n (rows df)\<rparr>"
  have u: "main pf df reader g = main_loop pf ?cols ?gr ?st0 (rows df)"
    using ok by (rule main_unfold)
  have "get_exclusion_cols ?df = ?cols" by (simp add: get_exclusion_cols_def)
  then have u': "main pf ?df reader g = main_loop pf ?cols ?gr ?st0 (take n (rows df))"
    using ok main_unfold [of ?df pf reader ids g] by simp
  have d: "distinct ?gr" using ok(2) by (rule global_reviewers_distinct)
  have w: "main_loop pf ?cols ?gr ?st0 (take n (rows df) @ drop n (rows df)) = Inr st_final"
    using assms u by simp
  then obtain st where s: "main_loop pf ?cols ?gr ?st0 (take n (rows df)) = Inr st"
    by (cases "main_loop pf ?cols ?gr ?st0 (take n (rows df))")
       (simp_all only: main_loop_append sum.case sum.distinct)
  from w have r: "main_loop pf ?cols ?gr st (drop n (rows df)) = Inr st_final"
    using s by (simp only: main_loop_append sum.case)
  have "\<forall>r. loads_get (loads ?st0) r \<le> MAX_ASSIGNMENTS_PER_REVIEWER"
    by (simp add: initial_loads_zero MAX_ASSIGNMENTS_PER_REVIEWER_def)
  then have "\<forall>r. loads_get (loads st) r \<le> MAX_ASSIGNMENTS_PER_REVIEWER"
    using main_loop_loads_bound [OF d s] by blast
  then show ?thesis using s r u' ok(2) by auto
qed

lemma choose_keeps_loads:
  "choose_reviewers_with_minmax eligible_pool k lds min_load max_load g = Inr (picks, lds', g')
     \<Longrightarrow> lds' = lds"
  by (auto simp: choose_reviewers_with_minmax_def Let_def
           split: if_splits sum.splits prod.splits option.splits)

text \<open>
  C9. The selector returns the load table as it received it. One pass through the loop
  body, for a row whose exclusion set is built, adds exactly one to the load of every
  reviewer it assigns and leaves every other load as it was, so no load goes down. At the
  end of the run the load of a reviewer is the number of times the output rows assign it.
\<close>

theorem loads_only_committed:
  "(choose_reviewers_with_minmax eligible_pool k lds min_load max_load g0 = Inr (picks, lds', g')
      \<longrightarrow> lds' = lds)
   \<and> (distinct global_reviewers \<and> build_exclusion_set pf row cols = Inr excluded \<longrightarrow>
        (\<exists>chosen st' out.
            process_row pf cols global_reviewers st row = Inr st'
          \<and> output_rows st' = output_rows st @ [out]
          \<and> assigned_reviewers out = map PInt chosen @ replicate (3 - length chosen) (PStr [])
          \<and> (\<forall>r. loads_get (loads st') r
                    = loads_get (loads st) r + (if r \<in> set chosen then 1 else 0))
          \<and> (\<forall>r. loads_get (loads st) r \<le> loads_get (loads st') r)))
   \<and> (main pf df reader g = Inr st_final \<longrightarrow>
        (\<forall>r. loads_get (loads st_final) r
               = (\<Sum>out\<leftarrow>output_rows st_final.
                    int (count_list (assigned_reviewers out) (PInt r)))))"
proof -
  have a: "lds' = lds"
    if "choose_reviewers_with_minmax eligible_pool k lds min_load max_load g0 = Inr (picks, lds', g')"
    using that by (rule choose_keeps_loads)
  have b: "\<exists>chosen st' out.
            process_row pf cols global_reviewers st row = Inr st'
          \<and> output_rows st' = output_rows st @ [out]
          \<and> assigned_reviewers out = map PInt chosen @ replicate (3 - length chosen) (PStr [])
          \<and> (\<forall>r. loads_get (loads st') r
                    = loads_get (loads st) r + (if r \<in> set chosen then 1 else 0))
          \<and> (\<forall>r. loads_get (loads st) r \<le> loads_get (loads st') r)"
    if d: "distinct global_reviewers" and e: "build_exclusion_set pf row cols = Inr excluded"
  proof -
    from process_row_succeeds [OF d e, of st] obtain st' where
      p: "process_row pf cols global_reviewers st row = Inr st'" by blast
    from process_row_step [OF d p]
    obtain chosen out where
      q: "output_rows st' = output_rows st @ [out]"
         "assigned_reviewers out = map PInt chosen @ replicate (3 - length chosen) (PStr [])"
      and l: "loads st' = update_loads chosen (loads st)" and dc: "distinct chosen"
      by blast
    have "loads_get (loads st') r = loads_get (loads st) r + (if r \<in> set chosen then 1 else 0)" for r
      using l dc by (simp add: update_loads_count count_list_distinct)
    then show ?thesis using p q by (intro exI [of _ chosen] exI [of _ st'] exI [of _ out]) simp
  qed
  have c: "loads_get (loads st_final) r
               = (\<Sum>out\<leftarrow>output_rows st_final.
                    int (count_list (assigned_reviewers out) (PInt r)))"
    if m: "main pf df reader g = Inr st_final" for r
  proof -
    from main_Inr_D [OF m] obtain ids where
      ok: "''Application ID'' \<in> set (columns df)" "load_reviewer_ids pf reader = Inr ids"
        "ids \<noteq> []" by blast
    let ?gr = "fst (shuffle ids g)"
    let ?st0 = "initial_state ?gr (snd (shuffle ids g))"
    have u: "main pf df reader g = main_loop pf (get_exclusion_cols df) ?gr ?st0 (rows df)"
      using ok by (rule main_unfold)
    have d: "distinct ?gr" using ok(2) by (rule global_reviewers_distinct)
    from main_loop_loads_count [OF d, of pf "get_exclusion_cols df" ?st0 "rows df" st_final r] m u
    obtain outs where "output_rows st_final = output_rows ?st0 @ outs"
      "loads_get (loads st_final) r = loads_get (loads ?st0) r
               + (\<Sum>out\<leftarrow>outs. int (count_list (assigned_reviewers out) (PInt r)))"
      by auto
    then show ?thesis by (simp add: initial_loads_zero) (simp add: initial_state_def)
  qed
  show ?thesis using a b c by blast
qed

lemma example_ids: "load_reviewer_ids Map.empty example_reviewers = Inr [1, 2]"
  by code_simp

lemma example_completes: "\<exists>st. main Map.empty example_applicants example_reviewers [] = Inr st"
proof -
  have "(case main Map.empty example_applicants example_reviewers [] of
           Inr st \<Rightarrow> True | Inl e \<Rightarrow> False)" by code_simp
  then show ?thesis
    by (cases "main Map.empty example_applicants example_reviewers []") simp_all
qed

lemma example_assigned:
  "(case main Map.empty example_applicants example_reviewers [] of
      Inr st \<Rightarrow> map assigned_reviewers (output_rows st) | Inl e \<Rightarrow> [])
   = [[PInt 2, PStr [], PStr []], [PInt 1, PInt 2, PStr []]]"
  by code_simp

lemma example_excluded:
  "build_exclusion_set Map.empty (rows example_applicants ! 0) (get_exclusion_cols example_applicants)
     = Inr {1}"
  by code_simp

lemma example_first_load:
  "(case main Map.empty (example_applicants\<lparr>rows := take 1 (rows example_applicants)\<rparr>)
           example_reviewers [] of
      Inr st \<Rightarrow> map (loads_get (loads st)) [1, 2] | Inl e \<Rightarrow> [])
   = [0, 1]"
  by code_simp



lemma long_digits_isdigit: "\<forall>c \<in> set long_digits. isdigit c"
  by (simp add: long_digits_def isdigit_def)

lemma long_digits_length: "int_max_str_digits < length long_digits"
  by (simp add: long_digits_def int_max_str_digits_def)

lemma long_cell_raises:
  "build_exclusion_set pf (rows long_cell_applicants ! 1) (get_exclusion_cols long_cell_applicants)
     = Inl (ValueError ''Exceeds the limit (4300 digits) for integer string conversion'')"
proof -
  have c: "get_exclusion_cols long_cell_applicants = [''Reviewer 1'']"
    by (simp add: get_exclusion_cols_def long_cell_applicants_def EXCLUSION_COL_CANDIDATES_def)
  have r: "row_get (rows long_cell_applicants ! 1) ''Reviewer 1'' = PStr long_digits"
    by (simp add: long_cell_applicants_def row_get_def)
  show ?thesis
    unfolding c build_exclusion_set_def using r
    by (simp add: normalize_id_long_digits [OF long_digits_isdigit long_digits_length])
qed

lemma long_cell_first_excluded:
  "build_exclusion_set Map.empty (rows long_cell_applicants ! 0)
       (get_exclusion_cols long_cell_applicants) = Inr {1}"
proof -
  have c: "get_exclusion_cols long_cell_applicants = [''Reviewer 1'']"
    by (simp add: get_exclusion_cols_def long_cell_applicants_def EXCLUSION_COL_CANDIDATES_def)
  have r: "row_get (rows long_cell_applicants ! 0) ''Reviewer 1'' = PInt 1"
    by (simp add: long_cell_applicants_def row_get_def)
  show ?thesis
    unfolding c build_exclusion_set_def using r by (simp add: normalize_id_def)
qed

lemma long_cell_aborts:
  "main Map.empty long_cell_applicants example_reviewers []
     = Inl (ValueError ''Exceeds the limit (4300 digits) for integer string conversion'')"
proof -
  let ?gr = "fst (shuffle [1, 2 :: int] [])"
  let ?st0 = "initial_state ?gr (snd (shuffle [1, 2 :: int] []))"
  let ?cols = "get_exclusion_cols long_cell_applicants"
  let ?r0 = "rows long_cell_applicants ! 0"
  let ?r1 = "rows long_cell_applicants ! 1"
  have h: "''Application ID'' \<in> set (columns long_cell_applicants)"
    by (simp add: long_cell_applicants_def)
  have n: "[1, 2 :: int] \<noteq> []" by simp
  have rs: "rows long_cell_applicants = [?r0, ?r1]"
    by (simp add: long_cell_applicants_def)
  have u: "main Map.empty long_cell_applicants example_reviewers []
             = main_loop Map.empty ?cols ?gr ?st0 (rows long_cell_applicants)"
    using h example_ids n by (rule main_unfold)
  have d: "distinct ?gr" using example_ids by (rule global_reviewers_distinct)
  from process_row_succeeds [OF d long_cell_first_excluded, of ?st0]
  obtain st1 where p: "process_row Map.empty ?cols ?gr ?st0 ?r0 = Inr st1" by blast
  have q: "process_row Map.empty ?cols ?gr st1 ?r1
             = Inl (ValueError ''Exceeds the limit (4300 digits) for integer string conversion'')"
    using long_cell_raises by (rule process_row_raises)
  have "main_loop Map.empty ?cols ?gr ?st0 [?r0, ?r1]
          = Inl (ValueError ''Exceeds the limit (4300 digits) for integer string conversion'')"
    by (simp only: main_loop.simps p q sum.case)
  then show ?thesis using u rs by (simp only:)
qed

text \<open>
  C7 does not hold of the code. The table below has the column \<^verbatim>\<open>Application ID\<close>, the
  reviewers file yields the pool 1, 2 and no selection meets an exclusion set, yet the
  run ends with an exception and writes nothing: the exclusion cell of the second
  application is a string of 4301 digits, on which \<open>int\<close> raises a \<open>ValueError\<close>
  that \<open>normalize_id\<close> does not catch.
\<close>

theorem main_aborts_on_long_digits:
  "''Application ID'' \<in> set (columns long_cell_applicants)
   \<and> load_reviewer_ids Map.empty example_reviewers = Inr [1, 2]
   \<and> main Map.empty long_cell_applicants example_reviewers []
       = Inl (ValueError ''Exceeds the limit (4300 digits) for integer string conversion'')"
proof -
  have "''Application ID'' \<in> set (columns long_cell_applicants)"
    by (simp add: long_cell_applicants_def)
  then show ?thesis using example_ids long_cell_aborts by (intro conjI)
qed


theorem assigned_never_excluded_witness:
  "\<exists>st. main Map.empty example_applicants example_reviewers [] = Inr st
      \<and> map assigned_reviewers (output_rows st)
          = [[PInt 2, PStr [], PStr []], [PInt 1, PInt 2, PStr []]]
      \<and> build_exclusion_set Map.empty (rows example_applicants ! 0)
            (get_exclusion_cols example_applicants) = Inr {1}
      \<and> (2 :: int) \<notin> {1}
      \<and> record_picks st (PStr ''A'') {1} [2] [1] (loads st) []
          = Inl (RuntimeError (PStr ''A'') (set [1] \<inter> {1}))"
proof -
  from example_completes
  obtain st where m: "main Map.empty example_applicants example_reviewers [] = Inr st" by blast
  have a: "map assigned_reviewers (output_rows st)
          = [[PInt 2, PStr [], PStr []], [PInt 1, PInt 2, PStr []]]"
    using example_assigned by (simp only: m sum.case)
  have l: "0 < length (rows example_applicants)" by (simp add: example_applicants_def)
  have "0 < length (output_rows st)"
    using a by (metis length_map length_Cons zero_less_Suc)
  then have "assigned_reviewers (output_rows st ! 0) = map assigned_reviewers (output_rows st) ! 0"
    by (rule nth_map [symmetric])
  also have "\<dots> = [PInt 2, PStr [], PStr []]" by (simp only: a nth_Cons_0)
  finally have h: "PInt 2 \<in> set (assigned_reviewers (output_rows st ! 0))" by simp
  note t = assigned_never_excluded [where pf = Map.empty and g = "[]" and df = example_applicants
      and reader = example_reviewers and st = st]
  from t [THEN conjunct1, THEN mp, OF m]
  have "\<forall>i < length (rows example_applicants). \<exists>excluded.
          build_exclusion_set Map.empty (rows example_applicants ! i)
              (get_exclusion_cols example_applicants) = Inr excluded
        \<and> (\<forall>rid. PInt rid \<in> set (assigned_reviewers (output_rows st ! i))
                 \<longrightarrow> rid \<notin> excluded)"
    by (rule conjunct2)
  with l obtain excluded where
    e: "build_exclusion_set Map.empty (rows example_applicants ! 0)
              (get_exclusion_cols example_applicants) = Inr excluded"
    and n: "\<forall>rid. PInt rid \<in> set (assigned_reviewers (output_rows st ! 0)) \<longrightarrow> rid \<notin> excluded"
    by blast
  from e example_excluded have "excluded = {1}" by simp
  with n h have n2: "(2 :: int) \<notin> {1}" by blast
  have h3: "set [1 :: int] \<inter> {1} \<noteq> {}" by simp
  have "record_picks st (PStr ''A'') {1} [2] [1] (loads st) []
          = Inl (RuntimeError (PStr ''A'') (set [1] \<inter> {1}))"
    by (rule t [THEN conjunct2, THEN mp, OF h3])
  with m a n2 example_excluded show ?thesis by (intro exI [of _ st] conjI)
qed

theorem load_cap_invariant_witness:
  "\<exists>st_final st.
       main Map.empty example_applicants example_reviewers [] = Inr st_final
     \<and> main Map.empty (example_applicants\<lparr>rows := take 1 (rows example_applicants)\<rparr>)
           example_reviewers [] = Inr st
     \<and> map (loads_get (loads st)) [1, 2] = [0, 1]
     \<and> loads_get (loads st) 2 \<le> MAX_ASSIGNMENTS_PER_REVIEWER
     \<and> main_loop Map.empty (get_exclusion_cols example_applicants)
           (fst (shuffle [1, 2] [])) st (drop 1 (rows example_applicants)) = Inr st_final"
proof -
  from example_completes
  obtain st_final where m: "main Map.empty example_applicants example_reviewers [] = Inr st_final"
    by blast
  from load_cap_invariant [OF m, of 1] obtain st ids where
    i: "load_reviewer_ids Map.empty example_reviewers = Inr ids"
    and s: "main Map.empty (example_applicants\<lparr>rows := take 1 (rows example_applicants)\<rparr>)
           example_reviewers [] = Inr st"
    and b: "\<forall>r. loads_get (loads st) r \<le> MAX_ASSIGNMENTS_PER_REVIEWER"
    and r: "main_loop Map.empty (get_exclusion_cols example_applicants)
           (fst (shuffle ids [])) st (drop 1 (rows example_applicants)) = Inr st_final"
    by blast
  from i example_ids have "ids = [1, 2]" by simp
  with r have r': "main_loop Map.empty (get_exclusion_cols example_applicants)
           (fst (shuffle [1, 2] [])) st (drop 1 (rows example_applicants)) = Inr st_final"
    by simp
  have "map (loads_get (loads st)) [1, 2] = [0, 1]"
    using example_first_load by (simp only: s sum.case)
  moreover have "loads_get (loads st) 2 \<le> MAX_ASSIGNMENTS_PER_REVIEWER" using b by (rule spec)
  ultimately show ?thesis using m s r' by (intro exI [of _ st_final] exI [of _ st] conjI)
qed

theorem loads_only_committed_witness:
  "distinct [1, 2 :: int]
   \<and> build_exclusion_set Map.empty (rows example_applicants ! 0) [''Reviewer 1''] = Inr {1}
   \<and> (\<exists>chosen st' out.
          process_row Map.empty [''Reviewer 1''] [1, 2] (initial_state [1, 2] [])
              (rows example_applicants ! 0) = Inr st'
        \<and> output_rows st' = [out]
        \<and> assigned_reviewers out = map PInt chosen @ replicate (3 - length chosen) (PStr [])
        \<and> loads_get (loads st') 2 = (if 2 \<in> set chosen then 1 else 0))
   \<and> (\<exists>picks g'. choose_reviewers_with_minmax [1, 2] 3 [1 \<mapsto> 4, 2 \<mapsto> 5] (Some 3) (Some 5) []
                   = Inr (picks, [1 \<mapsto> 4, 2 \<mapsto> 5], g'))
   \<and> (\<exists>st. main Map.empty example_applicants example_reviewers [] = Inr st
          \<and> map assigned_reviewers (output_rows st)
              = [[PInt 2, PStr [], PStr []], [PInt 1, PInt 2, PStr []]]
          \<and> loads_get (loads st) 1 = 1 \<and> loads_get (loads st) 2 = 2)"
proof -
  let ?lds = "[1 \<mapsto> 4, 2 \<mapsto> (5 :: int)] :: int \<rightharpoonup> int"
  let ?c = "choose_reviewers_with_minmax [1, 2] 3 ?lds (Some 3) (Some 5) []"
  note t = loads_only_committed [where pf = Map.empty and g = "[]" and df = example_applicants
      and reader = example_reviewers]
  have "(case ?c of Inr r \<Rightarrow> True | Inl e \<Rightarrow> False)" by code_simp
  then obtain picks lds' g' where c: "?c = Inr (picks, lds', g')"
    by (cases ?c) auto
  from t [THEN conjunct1, THEN mp, OF c] have "lds' = ?lds" .
  with c have c': "\<exists>picks g'. ?c = Inr (picks, ?lds, g')" by blast
  have d: "distinct [1, 2 :: int]" by simp
  have e: "build_exclusion_set Map.empty (rows example_applicants ! 0) [''Reviewer 1''] = Inr {1}"
    by code_simp
  from t [where global_reviewers = "[1, 2]" and cols = "[''Reviewer 1'']"
      and st = "initial_state [1, 2] []" and row = "rows example_applicants ! 0"
      and excluded = "{1}",
      THEN conjunct2, THEN conjunct1, THEN mp, OF conjI [OF d e]]
  obtain chosen st' out where
    p: "process_row Map.empty [''Reviewer 1''] [1, 2] (initial_state [1, 2] [])
              (rows example_applicants ! 0) = Inr st'"
       "output_rows st' = output_rows (initial_state [1, 2] []) @ [out]"
       "assigned_reviewers out = map PInt chosen @ replicate (3 - length chosen) (PStr [])"
       "\<forall>r. loads_get (loads st') r
            = loads_get (loads (initial_state [1, 2] [])) r + (if r \<in> set chosen then 1 else 0)"
    by blast
  from p(2) have p2: "output_rows st' = [out]" by (simp add: initial_state_def)
  from p(4) have p4: "loads_get (loads st') 2 = (if 2 \<in> set chosen then 1 else 0)"
    by (simp add: initial_loads_zero)
  from p(1) p2 p(3) p4 have step: "\<exists>chosen st' out.
          process_row Map.empty [''Reviewer 1''] [1, 2] (initial_state [1, 2] [])
              (rows example_applicants ! 0) = Inr st'
        \<and> output_rows st' = [out]
        \<and> assigned_reviewers out = map PInt chosen @ replicate (3 - length chosen) (PStr [])
        \<and> loads_get (loads st') 2 = (if 2 \<in> set chosen then 1 else 0)"
    by (intro exI [of _ chosen] exI [of _ st'] exI [of _ out] conjI)
  from example_completes
  obtain st where m: "main Map.empty example_applicants example_reviewers [] = Inr st" by blast
  have a: "map assigned_reviewers (output_rows st)
          = [[PInt 2, PStr [], PStr []], [PInt 1, PInt 2, PStr []]]"
    using example_assigned by (simp only: m sum.case)
  from t [THEN conjunct2, THEN conjunct2, THEN mp, OF m]
  have l: "loads_get (loads st) r
      = (\<Sum>asg\<leftarrow>map assigned_reviewers (output_rows st). int (count_list asg (PInt r)))" for r
    by (simp add: o_def)
  have "loads_get (loads st) 1 = 1" "loads_get (loads st) 2 = 2"
    unfolding l a by simp_all
  with m a have "\<exists>st. main Map.empty example_applicants example_reviewers [] = Inr st
          \<and> map assigned_reviewers (output_rows st)
              = [[PInt 2, PStr [], PStr []], [PInt 1, PInt 2, PStr []]]
          \<and> loads_get (loads st) 1 = 1 \<and> loads_get (loads st) 2 = 2"
    by (intro exI [of _ st] conjI)
  with d e step c' show ?thesis by (intro conjI)
qed

end
